theory Spec2Isabelle
  imports Complex_Main "HOL-Library.AList"
begin

section \<open>JavaScript values as server.js sees them\<close>

text \<open>
  Everything the message handler touches is a value produced by \<^verbatim>\<open>JSON.parse\<close>, or
  \<^verbatim>\<open>undefined\<close> (the result of reading a property that is not there). An object is the
  list of its own properties in insertion order. An array carries its elements and,
  because \<^verbatim>\<open>data.tasks[i].status = ...\<close> may hit an array, its named (non-index)
  properties. A number is kept as a rational: \<^verbatim>\<open>===\<close> on the finite numbers that
  \<^verbatim>\<open>JSON.parse\<close> yields is equality of their values.
\<close>

datatype jsval =
    Undefined
  | Null
  | Bool bool
  | Num rat
  | Str string
  | Arr "jsval list" "(string \<times> jsval) list"
  | Obj "(string \<times> jsval) list"

text \<open>
  The two errors the handlers can meet: a \<^verbatim>\<open>TypeError\<close> from reading a property of
  \<^verbatim>\<open>null\<close> or \<^verbatim>\<open>undefined\<close> or from calling what is not a function, and the
  \<^verbatim>\<open>RangeError\<close> of a \<^verbatim>\<open>JSON.stringify\<close> that runs out of stack or of string length.
\<close>

datatype js_error = TypeError | RangeError

text \<open>\<^verbatim>\<open>null\<close> and \<^verbatim>\<open>undefined\<close>: reading a property of either throws.\<close>

fun nullish :: "jsval \<Rightarrow> bool" where
  "nullish Undefined = True"
| "nullish Null = True"
| "nullish _ = False"

text \<open>Arrays and objects are compared by reference, every other value by content.\<close>

fun is_ref :: "jsval \<Rightarrow> bool" where
  "is_ref (Arr _ _) = True"
| "is_ref (Obj _) = True"
| "is_ref _ = False"

definition own_prop :: "(string \<times> jsval) list \<Rightarrow> string \<Rightarrow> jsval" where
  "own_prop ps k = (case map_of ps k of None \<Rightarrow> Undefined | Some v \<Rightarrow> v)"

text \<open>
  \<^verbatim>\<open>v.k\<close> for the property names the handler reads (\<^verbatim>\<open>type\<close>, \<^verbatim>\<open>payload\<close>, \<^verbatim>\<open>id\<close>,
  \<^verbatim>\<open>taskId\<close>, \<^verbatim>\<open>status\<close>, \<^verbatim>\<open>comment\<close>, \<^verbatim>\<open>comments\<close>, \<^verbatim>\<open>name\<close>): none of them is
  inherited from a prototype, so a primitive has none of them and an object or array has
  the ones it owns.
\<close>

fun get_prop :: "jsval \<Rightarrow> string \<Rightarrow> js_error + jsval" where
  "get_prop Undefined k = Inl TypeError"
| "get_prop Null k = Inl TypeError"
| "get_prop (Bool b) k = Inr Undefined"
| "get_prop (Num n) k = Inr Undefined"
| "get_prop (Str s) k = Inr Undefined"
| "get_prop (Arr xs ps) k = Inr (own_prop ps k)"
| "get_prop (Obj ps) k = Inr (own_prop ps k)"

text \<open>
  \<^verbatim>\<open>v.k = x\<close> in sloppy mode (server.js has no \<^verbatim>\<open>'use strict'\<close>), for a \<^verbatim>\<open>v\<close> that is
  neither \<^verbatim>\<open>null\<close> nor \<^verbatim>\<open>undefined\<close>: an existing property keeps its place, a new one is
  added last, and the assignment to a primitive is dropped silently.
\<close>

fun set_prop :: "jsval \<Rightarrow> string \<Rightarrow> jsval \<Rightarrow> jsval" where
  "set_prop (Obj ps) k x = Obj (AList.update k x ps)"
| "set_prop (Arr xs ps) k x = Arr xs (AList.update k x ps)"
| "set_prop v k x = v"

text \<open>
  \<^verbatim>\<open>a === b\<close> where one side was stored earlier and the other comes from the message
  just parsed: two arrays or objects are then never the same reference.
\<close>

fun strict_eq :: "jsval \<Rightarrow> jsval \<Rightarrow> bool" where
  "strict_eq Undefined Undefined = True"
| "strict_eq Null Null = True"
| "strict_eq (Bool a) (Bool b) = (a = b)"
| "strict_eq (Num a) (Num b) = (a = b)"
| "strict_eq (Str a) (Str b) = (a = b)"
| "strict_eq _ _ = False"

text \<open>\<^verbatim>\<open>Array.prototype.findIndex\<close> with a callback that may throw; \<open>None\<close> is \<open>-1\<close>.\<close>

fun findIndex :: "(jsval \<Rightarrow> js_error + bool) \<Rightarrow> jsval list \<Rightarrow> js_error + nat option" where
  "findIndex f [] = Inr None"
| "findIndex f (x # xs) =
     (case f x of
        Inl e \<Rightarrow> Inl e
      | Inr True \<Rightarrow> Inr (Some 0)
      | Inr False \<Rightarrow>
          (case findIndex f xs of
             Inl e \<Rightarrow> Inl e
           | Inr None \<Rightarrow> Inr None
           | Inr (Some i) \<Rightarrow> Inr (Some (Suc i))))"

text \<open>\<^verbatim>\<open>Array.prototype.filter\<close> with a callback that may throw.\<close>

fun filter_js :: "(jsval \<Rightarrow> js_error + bool) \<Rightarrow> jsval list \<Rightarrow> js_error + jsval list" where
  "filter_js f [] = Inr []"
| "filter_js f (x # xs) =
     (case f x of
        Inl e \<Rightarrow> Inl e
      | Inr keep \<Rightarrow>
          (case filter_js f xs of
             Inl e \<Rightarrow> Inl e
           | Inr ys \<Rightarrow> Inr (if keep then x # ys else ys)))"

text \<open>
  The callbacks \<^verbatim>\<open>t => t.k === msg.payload.k'\<close>: the left operand is read first, then
  the right one.
\<close>

definition prop_eq :: "string \<Rightarrow> string \<Rightarrow> jsval \<Rightarrow> jsval \<Rightarrow> js_error + bool" where
  "prop_eq k k' payload t =
     (case get_prop t k of
        Inl e \<Rightarrow> Inl e
      | Inr a \<Rightarrow>
          (case get_prop payload k' of
             Inl e \<Rightarrow> Inl e
           | Inr b \<Rightarrow> Inr (strict_eq a b)))"

definition prop_neq :: "string \<Rightarrow> string \<Rightarrow> jsval \<Rightarrow> jsval \<Rightarrow> js_error + bool" where
  "prop_neq k k' payload t =
     (case prop_eq k k' payload t of Inl e \<Rightarrow> Inl e | Inr b \<Rightarrow> Inr (\<not> b))"

section \<open>The store, the connections and the effects\<close>

text \<open>
  The Board is the object \<^verbatim>\<open>{ tasks: [...], teamMembers: [...] }\<close> that \<^verbatim>\<open>initDataFile\<close>
  leaves in \<^verbatim>\<open>inMemoryData\<close>. Its two arrays hold whatever the clients sent.
\<close>

record board =
  tasks :: "jsval list"
  teamMembers :: "jsval list"

datatype ready_state = CONNECTING | OPEN | CLOSING | CLOSED

record client =
  cid :: nat
  readyState :: ready_state

text \<open>
  The state of the process and of what it acts on: the resident Board, the snapshot in
  \<^verbatim>\<open>board-data.json\<close> (the Board whose serialisation it holds), whether the file system
  accepts a write, \<^verbatim>\<open>wss.clients\<close> in insertion order, the \<^verbatim>\<open>send\<close> calls made so far
  (socket and the message object that was serialised), the number of \<^verbatim>\<open>writeFileSync\<close>
  calls made so far, and which values the engine's \<^verbatim>\<open>JSON.stringify\<close> serialises: on the
  others (nested too deep for the stack, or too long for a string) it throws a
  \<^verbatim>\<open>RangeError\<close>. Where that limit lies depends on the engine, so it is a parameter.
  The indented call \<^verbatim>\<open>JSON.stringify(data, null, 2)\<close> is only applied to a Board and
  the plain one only to a message envelope, so one predicate serves both.
\<close>

record world =
  inMemoryData :: board
  dataFile :: "board option"
  fsWritable :: bool
  clients :: "client list"
  sent :: "(nat \<times> jsval) list"
  fileWrites :: nat
  stringifies :: "jsval \<Rightarrow> bool"

definition envelope :: "string \<Rightarrow> jsval \<Rightarrow> jsval" where
  "envelope ty payload = Obj [(''type'', Str ty), (''payload'', payload)]"

definition board_val :: "board \<Rightarrow> jsval" where
  "board_val b = Obj [(''tasks'', Arr (tasks b) []), (''teamMembers'', Arr (teamMembers b) [])]"

text \<open>
  \<^verbatim>\<open>initDataFile\<close> runs before the server listens and leaves a Board in
  \<^verbatim>\<open>inMemoryData\<close>, so every handler finds it set: \<^verbatim>\<open>readData\<close> returns it and
  never takes its fallback of reading the file again.
\<close>

definition readData :: "world \<Rightarrow> board" where
  "readData w = inMemoryData w"

text \<open>
  \<^verbatim>\<open>writeData\<close> stores the Board, then, inside its own \<^verbatim>\<open>try\<close>, serialises it and
  calls \<^verbatim>\<open>writeFileSync\<close>. When \<^verbatim>\<open>JSON.stringify(data, null, 2)\<close> throws,
  \<^verbatim>\<open>writeFileSync\<close> is not called; when the write itself fails, the file stays as it
  was. Both errors are caught there and only logged.
\<close>

definition writeData :: "world \<Rightarrow> board \<Rightarrow> world" where
  "writeData w data =
     (let w1 = w\<lparr>inMemoryData := data\<rparr> in
      if stringifies w (board_val data)
      then w1\<lparr>fileWrites := Suc (fileWrites w),
              dataFile := (if fsWritable w then Some data else dataFile w)\<rparr>
      else w1)"

text \<open>
  A step that can throw returns what it threw, if anything, and the world at that
  moment. \<^verbatim>\<open>socket.send(JSON.stringify(message))\<close> serialises first: when that throws,
  nothing is sent.
\<close>

definition ws_send :: "world \<Rightarrow> nat \<Rightarrow> jsval \<Rightarrow> js_error option \<times> world" where
  "ws_send w ws message =
     (if stringifies w message
      then (None, w\<lparr>sent := sent w @ [(ws, message)]\<rparr>)
      else (Some RangeError, w))"

text \<open>
  \<^verbatim>\<open>broadcast\<close>: \<^verbatim>\<open>wss.clients.forEach\<close>, sending to every socket that is not
  \<^verbatim>\<open>excludeWs\<close> and is open. A throw in the callback ends the loop.
\<close>

fun forEach_client ::
  "client list \<Rightarrow> world \<Rightarrow> jsval \<Rightarrow> nat option \<Rightarrow> js_error option \<times> world" where
  "forEach_client [] w message excludeWs = (None, w)"
| "forEach_client (client # rest) w message excludeWs =
     (if Some (cid client) \<noteq> excludeWs \<and> readyState client = OPEN
      then (case ws_send w (cid client) message of
              (Some e, w') \<Rightarrow> (Some e, w')
            | (None, w') \<Rightarrow> forEach_client rest w' message excludeWs)
      else forEach_client rest w message excludeWs)"

definition broadcast :: "world \<Rightarrow> jsval \<Rightarrow> nat option \<Rightarrow> js_error option \<times> world" where
  "broadcast w message excludeWs = forEach_client (clients w) w message excludeWs"

definition recipients :: "world \<Rightarrow> nat option \<Rightarrow> client list" where
  "recipients w excludeWs =
     filter (\<lambda>c. Some (cid c) \<noteq> excludeWs \<and> readyState c = OPEN) (clients w)"

text \<open>
  The three statements that end every committed case, inside the handler's \<^verbatim>\<open>try\<close>:
  \<^verbatim>\<open>writeData(data)\<close>, \<^verbatim>\<open>broadcast(event)\<close>, \<^verbatim>\<open>ws.send(JSON.stringify(event))\<close>.
  The result is the world after the \<^verbatim>\<open>catch\<close>, which only logs: a throw in
  \<^verbatim>\<open>broadcast\<close> skips the echo, and what was done before the throw stays done.
\<close>

definition commit :: "world \<Rightarrow> nat \<Rightarrow> board \<Rightarrow> jsval \<Rightarrow> world" where
  "commit w ws data ev =
     (let w1 = writeData w data in
      case broadcast w1 ev None of
        (Some e, w2) \<Rightarrow> w2
      | (None, w2) \<Rightarrow> snd (ws_send w2 ws ev))"

section \<open>The connection handler and the message handler\<close>


text \<open>
  The switch cases, one definition each, up to the end of the handler's \<^verbatim>\<open>try\<close>
  block. In every case the lookups that can throw a \<^verbatim>\<open>TypeError\<close> come before the
  first effect, so after such a throw the \<^verbatim>\<open>catch\<close> (which only logs) leaves the
  world as it was when the message arrived.
\<close>

definition case_ADD_TASK :: "world \<Rightarrow> nat \<Rightarrow> jsval \<Rightarrow> world" where
  "case_ADD_TASK w ws payload =
     (let data = readData w;
          data' = data\<lparr>tasks := tasks data @ [payload]\<rparr>
      in commit w ws data' (envelope ''TASK_ADDED'' payload))"

definition case_UPDATE_TASK :: "world \<Rightarrow> nat \<Rightarrow> jsval \<Rightarrow> world" where
  "case_UPDATE_TASK w ws payload =
     (let data = readData w in
      case findIndex (prop_eq ''id'' ''id'' payload) (tasks data) of
        Inl e \<Rightarrow> w
      | Inr None \<Rightarrow> w
      | Inr (Some taskIndex) \<Rightarrow>
          commit w ws (data\<lparr>tasks := (tasks data)[taskIndex := payload]\<rparr>)
            (envelope ''TASK_UPDATED'' payload))"

definition case_DELETE_TASK :: "world \<Rightarrow> nat \<Rightarrow> jsval \<Rightarrow> world" where
  "case_DELETE_TASK w ws payload =
     (let data = readData w in
      case filter_js (prop_neq ''id'' ''id'' payload) (tasks data) of
        Inl e \<Rightarrow> w
      | Inr kept \<Rightarrow>
          commit w ws (data\<lparr>tasks := kept\<rparr>) (envelope ''TASK_DELETED'' payload))"

definition case_MOVE_TASK :: "world \<Rightarrow> nat \<Rightarrow> jsval \<Rightarrow> world" where
  "case_MOVE_TASK w ws payload =
     (let data = readData w in
      case findIndex (prop_eq ''id'' ''id'' payload) (tasks data) of
        Inl e \<Rightarrow> w
      | Inr None \<Rightarrow> w
      | Inr (Some moveIndex) \<Rightarrow>
          (case get_prop payload ''status'' of
             Inl e \<Rightarrow> w
           | Inr status \<Rightarrow>
               commit w ws
                 (data\<lparr>tasks := (tasks data)
                    [moveIndex := set_prop (tasks data ! moveIndex) ''status'' status]\<rparr>)
                 (envelope ''TASK_MOVED'' payload)))"

text \<open>
  \<^verbatim>\<open>t.comments.push(c)\<close>: it works when \<^verbatim>\<open>t.comments\<close> is an array whose \<^verbatim>\<open>push\<close> is the
  inherited method; anything else has no callable \<^verbatim>\<open>push\<close> and the call throws.
\<close>

definition push_comment :: "jsval \<Rightarrow> jsval \<Rightarrow> js_error + jsval" where
  "push_comment t c =
     (case get_prop t ''comments'' of
        Inl e \<Rightarrow> Inl e
      | Inr (Arr xs ps) \<Rightarrow>
          (if map_of ps ''push'' = None
           then Inr (set_prop t ''comments'' (Arr (xs @ [c]) ps))
           else Inl TypeError)
      | Inr _ \<Rightarrow> Inl TypeError)"

definition case_ADD_COMMENT :: "world \<Rightarrow> nat \<Rightarrow> jsval \<Rightarrow> world" where
  "case_ADD_COMMENT w ws payload =
     (let data = readData w in
      case findIndex (prop_eq ''id'' ''taskId'' payload) (tasks data) of
        Inl e \<Rightarrow> w
      | Inr None \<Rightarrow> w
      | Inr (Some commentTaskIndex) \<Rightarrow>
          (case get_prop payload ''comment'' of
             Inl e \<Rightarrow> w
           | Inr c \<Rightarrow>
               (case push_comment (tasks data ! commentTaskIndex) c of
                  Inl e \<Rightarrow> w
                | Inr t' \<Rightarrow>
                    commit w ws (data\<lparr>tasks := (tasks data)[commentTaskIndex := t']\<rparr>)
                      (envelope ''COMMENT_ADDED'' payload))))"

definition case_UPDATE_TEAM_MEMBER :: "world \<Rightarrow> nat \<Rightarrow> jsval \<Rightarrow> world" where
  "case_UPDATE_TEAM_MEMBER w ws payload =
     (let data = readData w in
      case findIndex (prop_eq ''name'' ''name'' payload) (teamMembers data) of
        Inl e \<Rightarrow> w
      | Inr memberIndex \<Rightarrow>
          (let members =
                 (case memberIndex of
                    None \<Rightarrow> teamMembers data @ [payload]
                  | Some i \<Rightarrow> (teamMembers data)[i := payload])
           in commit w ws (data\<lparr>teamMembers := members\<rparr>)
                (envelope ''TEAM_UPDATED'' (Arr members []))))"

definition case_USER_ACTIVITY :: "world \<Rightarrow> nat \<Rightarrow> jsval \<Rightarrow> world" where
  "case_USER_ACTIVITY w ws payload =
     snd (broadcast w (envelope ''USER_ACTIVITY'' payload) (Some ws))"

text \<open>
  \<^verbatim>\<open>msg.payload\<close>, read once \<^verbatim>\<open>msg.type\<close> has matched a case label: \<^verbatim>\<open>msg\<close> is then
  neither \<^verbatim>\<open>null\<close> nor \<^verbatim>\<open>undefined\<close> and the read cannot throw.
\<close>

definition payload_of :: "jsval \<Rightarrow> jsval" where
  "payload_of msg = (case get_prop msg ''payload'' of Inl e \<Rightarrow> Undefined | Inr p \<Rightarrow> p)"

definition dispatch :: "world \<Rightarrow> nat \<Rightarrow> jsval \<Rightarrow> world" where
  "dispatch w ws msg =
     (case get_prop msg ''type'' of
        Inl e \<Rightarrow> w
      | Inr ty \<Rightarrow>
          if strict_eq ty (Str ''ADD_TASK'') then case_ADD_TASK w ws (payload_of msg)
          else if strict_eq ty (Str ''UPDATE_TASK'') then case_UPDATE_TASK w ws (payload_of msg)
          else if strict_eq ty (Str ''DELETE_TASK'') then case_DELETE_TASK w ws (payload_of msg)
          else if strict_eq ty (Str ''MOVE_TASK'') then case_MOVE_TASK w ws (payload_of msg)
          else if strict_eq ty (Str ''ADD_COMMENT'') then case_ADD_COMMENT w ws (payload_of msg)
          else if strict_eq ty (Str ''UPDATE_TEAM_MEMBER'')
            then case_UPDATE_TEAM_MEMBER w ws (payload_of msg)
          else if strict_eq ty (Str ''USER_ACTIVITY'') then case_USER_ACTIVITY w ws (payload_of msg)
          else w)"

text \<open>The text of a message either fails \<^verbatim>\<open>JSON.parse\<close> or yields a value.\<close>

datatype raw = Malformed | Parsed jsval

fun on_message :: "world \<Rightarrow> nat \<Rightarrow> raw \<Rightarrow> world" where
  "on_message w ws Malformed = w"
| "on_message w ws (Parsed msg) = dispatch w ws msg"

text \<open>Messages handled one after the other, each with the socket it arrived on.\<close>

definition replay :: "world \<Rightarrow> (nat \<times> raw) list \<Rightarrow> world" where
  "replay w ms = foldl (\<lambda>w' (ws, m). on_message w' ws m) w ms"

section \<open>Vocabulary of the properties\<close>

definition has_type :: "jsval \<Rightarrow> string \<Rightarrow> bool" where
  "has_type msg ty = (get_prop msg ''type'' = Inr (Str ty))"

definition supported :: "string list" where
  "supported = [''ADD_TASK'', ''UPDATE_TASK'', ''DELETE_TASK'', ''MOVE_TASK'',
                ''ADD_COMMENT'', ''UPDATE_TEAM_MEMBER'', ''USER_ACTIVITY'']"

text \<open>
  Two stored elements carry the same key when reading it succeeds on both and the two
  values are \<^verbatim>\<open>===\<close>; \<open>keys_distinct\<close> says that no two positions do.
\<close>

definition same_key :: "string \<Rightarrow> jsval \<Rightarrow> jsval \<Rightarrow> bool" where
  "same_key k t u =
     (case (get_prop t k, get_prop u k) of
        (Inr a, Inr b) \<Rightarrow> strict_eq a b
      | _ \<Rightarrow> False)"

fun keys_distinct :: "string \<Rightarrow> jsval list \<Rightarrow> bool" where
  "keys_distinct k [] = True"
| "keys_distinct k (t # ts) = ((\<forall>u \<in> set ts. \<not> same_key k t u) \<and> keys_distinct k ts)"

definition empty_board :: board where
  "empty_board = \<lparr>tasks = [], teamMembers = []\<rparr>"

text \<open>The \<^verbatim>\<open>send\<close> calls a handler added, and the sockets a broadcast to all reaches.\<close>

definition new_sends :: "world \<Rightarrow> world \<Rightarrow> (nat \<times> jsval) list" where
  "new_sends w w' = drop (length (sent w)) (sent w')"

definition open_clients :: "world \<Rightarrow> client list" where
  "open_clients w = filter (\<lambda>c. readyState c = OPEN) (clients w)"

text \<open>The event tag that answers each supported request tag.\<close>

definition event_tag :: "string \<Rightarrow> string" where
  "event_tag ty =
     (if ty = ''ADD_TASK'' then ''TASK_ADDED''
      else if ty = ''UPDATE_TASK'' then ''TASK_UPDATED''
      else if ty = ''DELETE_TASK'' then ''TASK_DELETED''
      else if ty = ''MOVE_TASK'' then ''TASK_MOVED''
      else if ty = ''ADD_COMMENT'' then ''COMMENT_ADDED''
      else if ty = ''UPDATE_TEAM_MEMBER'' then ''TEAM_UPDATED''
      else ''USER_ACTIVITY'')"

text \<open>The messages of a list of \<^verbatim>\<open>send\<close> calls that went to one socket.\<close>

definition received :: "nat \<Rightarrow> (nat \<times> jsval) list \<Rightarrow> jsval list" where
  "received c sends = map snd (filter (\<lambda>(d, m). d = c) sends)"

text \<open>
  The \<open>teamMembers\<close> that the UPDATE\_TEAM\_MEMBER case leaves behind, as a function of
  the payload and the members before (the lemma \<open>teamMembers_UPDATE_TEAM_MEMBER\<close> ties it
  to the handler).
\<close>

definition upsert_result :: "jsval \<Rightarrow> jsval list \<Rightarrow> jsval list" where
  "upsert_result p ms =
     (case findIndex (prop_eq ''name'' ''name'' p) ms of
        Inl e \<Rightarrow> ms
      | Inr None \<Rightarrow> ms @ [p]
      | Inr (Some i) \<Rightarrow> ms[i := p])"

text \<open>
  \<open>first_hit k k' p ts i\<close>: \<open>ts[i]\<close> is the first element whose \<open>k\<close> is \<^verbatim>\<open>===\<close> to
  \<open>p.k'\<close>, and the comparison throws on no element before it. That is when
  \<^verbatim>\<open>findIndex\<close> answers \<open>i\<close>.
\<close>

definition first_hit :: "string \<Rightarrow> string \<Rightarrow> jsval \<Rightarrow> jsval list \<Rightarrow> nat \<Rightarrow> bool" where
  "first_hit k k' p ts i \<longleftrightarrow>
     i < length ts \<and> prop_eq k k' p (ts ! i) = Inr True
     \<and> (\<forall>j < i. prop_eq k k' p (ts ! j) = Inr False)"

text \<open>A task whose \<open>comments\<close> is an array (with the \<^verbatim>\<open>push\<close> every array inherits).\<close>

definition has_comments_array :: "jsval \<Rightarrow> bool" where
  "has_comments_array t =
     (case get_prop t ''comments'' of
        Inr (Arr xs ps) \<Rightarrow> map_of ps ''push'' = None
      | _ \<Rightarrow> False)"

text \<open>
  The requests that go through, stated on the Board and the payload as they are when
  the message arrives: ADD\_TASK always; UPDATE\_TASK and MOVE\_TASK when the lookup by
  \<open>id\<close> finds a task; DELETE\_TASK when neither a task nor the payload is \<^verbatim>\<open>null\<close> or
  \<^verbatim>\<open>undefined\<close>; ADD\_COMMENT when the lookup by \<open>taskId\<close> finds a task that has a
  \<open>comments\<close> array; UPDATE\_TEAM\_MEMBER when the lookup by \<open>name\<close> finds a member or
  runs through all of them without throwing.
\<close>

definition accepted :: "string \<Rightarrow> board \<Rightarrow> jsval \<Rightarrow> bool" where
  "accepted ty b p =
     (if ty = ''ADD_TASK'' then True
      else if ty = ''UPDATE_TASK'' \<or> ty = ''MOVE_TASK''
        then (\<exists>i < length (tasks b). first_hit ''id'' ''id'' p (tasks b) i)
      else if ty = ''DELETE_TASK''
        then (\<forall>t \<in> set (tasks b). \<not> nullish t \<and> \<not> nullish p)
      else if ty = ''ADD_COMMENT''
        then (\<exists>i < length (tasks b).
                first_hit ''id'' ''taskId'' p (tasks b) i \<and> has_comments_array (tasks b ! i))
      else if ty = ''UPDATE_TEAM_MEMBER''
        then ((\<exists>i < length (teamMembers b). first_hit ''name'' ''name'' p (teamMembers b) i)
              \<or> (\<forall>m \<in> set (teamMembers b). prop_eq ''name'' ''name'' p m = Inr False))
      else False)"

text \<open>
  The event that answers an accepted request on Board \<open>b\<close>: the request's payload under
  the matching tag, except that TEAM\_UPDATED carries the members after the upsert.
\<close>

definition event_of :: "string \<Rightarrow> board \<Rightarrow> jsval \<Rightarrow> jsval" where
  "event_of ty b p =
     (if ty = ''UPDATE_TEAM_MEMBER''
      then envelope ''TEAM_UPDATED'' (Arr (upsert_result p (teamMembers b)) [])
      else envelope (event_tag ty) p)"

subsection \<open>Concrete inputs\<close>

text \<open>
  How deep a value nests arrays and objects, and the array nested \<open>n\<close> levels inside an
  outer one (the text \<^verbatim>\<open>[[...[]...]]\<close> with \<open>n + 1\<close> pairs of brackets).
\<close>

primrec depth :: "jsval \<Rightarrow> nat" where
  "depth Undefined = 0"
| "depth Null = 0"
| "depth (Bool b) = 0"
| "depth (Num n) = 0"
| "depth (Str s) = 0"
| "depth (Arr xs ps) =
     Suc (max (fold max (map depth xs) 0) (fold max (map snd (map (map_prod id depth) ps)) 0))"
| "depth (Obj ps) = Suc (fold max (map snd (map (map_prod id depth) ps)) 0)"

primrec deep :: "nat \<Rightarrow> jsval" where
  "deep 0 = Arr [] []"
| "deep (Suc n) = Arr [deep n] []"

text \<open>
  An engine whose \<^verbatim>\<open>JSON.stringify\<close> gives up beyond 8192 levels of nesting, and a
  world on it: sockets 0 and 1 are open, socket 2 is closed, the file system refuses
  writes, nothing has been sent yet.
\<close>

definition ex_stringifies :: "jsval \<Rightarrow> bool" where
  "ex_stringifies v \<longleftrightarrow> depth v \<le> 8192"

definition ex_clients :: "client list" where
  "ex_clients = [\<lparr>cid = 0, readyState = OPEN\<rparr>, \<lparr>cid = 1, readyState = OPEN\<rparr>,
                 \<lparr>cid = 2, readyState = CLOSED\<rparr>]"

definition ex_task :: "string \<Rightarrow> string \<Rightarrow> jsval" where
  "ex_task i s = Obj [(''id'', Str i), (''status'', Str s), (''comments'', Arr [] [])]"

definition ex_world :: "jsval list \<Rightarrow> world" where
  "ex_world ts =
     \<lparr>inMemoryData = \<lparr>tasks = ts, teamMembers = []\<rparr>, dataFile = None, fsWritable = False,
      clients = ex_clients, sent = [], fileWrites = 0, stringifies = ex_stringifies\<rparr>"

section \<open>Basic facts\<close>

lemma strict_eq_Str [simp]: "strict_eq v (Str s) \<longleftrightarrow> v = Str s"
  by (cases v) auto

lemma forEach_client_eq:
  "forEach_client cs w m ex =
     (if stringifies w m \<or> filter (\<lambda>c. Some (cid c) \<noteq> ex \<and> readyState c = OPEN) cs = []
      then (None, w\<lparr>sent := sent w @ map (\<lambda>c. (cid c, m))
                      (filter (\<lambda>c. Some (cid c) \<noteq> ex \<and> readyState c = OPEN) cs)\<rparr>)
      else (Some RangeError, w))"
proof (induction cs arbitrary: w)
  case Nil
  then show ?case by simp
next
  case (Cons c cs)
  show ?case
  proof (cases "Some (cid c) \<noteq> ex \<and> readyState c = OPEN")
    case False
    then show ?thesis using Cons.IH [of w] by auto
  next
    case True
    show ?thesis
    proof (cases "stringifies w m")
      case False
      with True show ?thesis by (simp add: ws_send_def)
    next
      case ok: True
      with True show ?thesis
        using Cons.IH [of "w\<lparr>sent := sent w @ [(cid c, m)]\<rparr>"]
        by (simp add: ws_send_def)
    qed
  qed
qed

lemma broadcast_eq:
  "broadcast w m ex =
     (if stringifies w m \<or> recipients w ex = []
      then (None, w\<lparr>sent := sent w @ map (\<lambda>c. (cid c, m)) (recipients w ex)\<rparr>)
      else (Some RangeError, w))"
  unfolding broadcast_def recipients_def by (rule forEach_client_eq)

lemma writeData_fields [simp]:
  "inMemoryData (writeData w data) = data"
  "clients (writeData w data) = clients w"
  "sent (writeData w data) = sent w"
  "fsWritable (writeData w data) = fsWritable w"
  "stringifies (writeData w data) = stringifies w"
  by (simp_all add: writeData_def Let_def)

lemma recipients_writeData [simp]: "recipients (writeData w data) ex = recipients w ex"
  by (simp add: recipients_def)

lemma open_clients_writeData [simp]: "open_clients (writeData w data) = open_clients w"
  by (simp add: open_clients_def)

lemma recipients_None: "recipients w None = open_clients w"
  by (simp add: recipients_def open_clients_def)

lemma commit_eq:
  "commit w ws data ev =
     (if stringifies w ev
      then (writeData w data)\<lparr>sent := sent w @ map (\<lambda>c. (cid c, ev)) (open_clients w) @ [(ws, ev)]\<rparr>
      else writeData w data)"
  by (simp add: commit_def Let_def broadcast_eq ws_send_def recipients_None)

lemma commit_fields [simp]:
  "inMemoryData (commit w ws data ev) = data"
  "clients (commit w ws data ev) = clients w"
  "fsWritable (commit w ws data ev) = fsWritable w"
  "stringifies (commit w ws data ev) = stringifies w"
  "sent (commit w ws data ev) =
     (if stringifies w ev
      then sent w @ map (\<lambda>c. (cid c, ev)) (open_clients w) @ [(ws, ev)]
      else sent w)"
  by (simp_all add: commit_eq)

lemma commit_file [simp]:
  "fileWrites (commit w ws data ev) =
     (if stringifies w (board_val data) then Suc (fileWrites w) else fileWrites w)"
  "dataFile (commit w ws data ev) =
     (if stringifies w (board_val data) \<and> fsWritable w then Some data else dataFile w)"
  by (simp_all add: commit_eq writeData_def Let_def)

lemma dispatch_cases:
  "has_type msg ''ADD_TASK'' \<Longrightarrow> dispatch w ws msg = case_ADD_TASK w ws (payload_of msg)"
  "has_type msg ''UPDATE_TASK'' \<Longrightarrow> dispatch w ws msg = case_UPDATE_TASK w ws (payload_of msg)"
  "has_type msg ''DELETE_TASK'' \<Longrightarrow> dispatch w ws msg = case_DELETE_TASK w ws (payload_of msg)"
  "has_type msg ''MOVE_TASK'' \<Longrightarrow> dispatch w ws msg = case_MOVE_TASK w ws (payload_of msg)"
  "has_type msg ''ADD_COMMENT'' \<Longrightarrow> dispatch w ws msg = case_ADD_COMMENT w ws (payload_of msg)"
  "has_type msg ''UPDATE_TEAM_MEMBER'' \<Longrightarrow>
     dispatch w ws msg = case_UPDATE_TEAM_MEMBER w ws (payload_of msg)"
  "has_type msg ''USER_ACTIVITY'' \<Longrightarrow> dispatch w ws msg = case_USER_ACTIVITY w ws (payload_of msg)"
  by (simp_all add: has_type_def dispatch_def)

lemma dispatch_unsupported:
  "\<forall>ty \<in> set supported. \<not> has_type msg ty \<Longrightarrow> dispatch w ws msg = w"
  by (cases "get_prop msg ''type''") (simp_all add: has_type_def dispatch_def supported_def)

lemma tasks_ADD_TASK:
  "tasks (inMemoryData (case_ADD_TASK w ws p)) = tasks (inMemoryData w) @ [p]"
  by (simp add: case_ADD_TASK_def readData_def Let_def)

lemma replay_Nil [simp]: "replay w [] = w"
  by (simp add: replay_def)

lemma replay_Cons [simp]: "replay w ((ws, m) # ms) = replay (on_message w ws m) ms"
  by (simp add: replay_def)

lemma findIndex_no_match:
  "\<forall>t \<in> set ts. f t \<noteq> Inr True \<Longrightarrow> findIndex f ts \<noteq> Inr (Some i)"
proof (induction ts arbitrary: i)
  case Nil
  then show ?case by simp
next
  case (Cons t ts)
  then show ?case
    by (cases "f t"; cases "findIndex f ts") (auto split: sum.splits option.splits bool.splits)
qed

lemma payload_of_envelope [simp]: "payload_of (envelope ty x) = x"
  by (simp add: payload_of_def envelope_def own_prop_def)

lemma has_type_envelope [simp]: "has_type (envelope ty x) ty' \<longleftrightarrow> ty = ty'"
  by (simp add: has_type_def envelope_def own_prop_def)

lemma new_sends_same [simp]: "new_sends w w = []"
  by (simp add: new_sends_def)

lemma new_sends_commit:
  "new_sends w (commit w ws data ev) =
     (if stringifies w ev then map (\<lambda>c. (cid c, ev)) (open_clients w) @ [(ws, ev)] else [])"
  by (simp add: new_sends_def)

subsection \<open>The example engine\<close>

lemma depth_deep: "depth (deep n) = Suc n"
  by (induction n) simp_all

lemma is_ref_deep [simp]: "is_ref (deep n)"
  by (cases n) simp_all

lemma not_nullish_deep [simp]: "\<not> nullish (deep n)"
  by (cases n) simp_all

lemma depth_envelope [simp]: "depth (envelope ty p) = Suc (depth p)"
  by (simp add: envelope_def)


lemma depth_ex_task [simp]: "depth (ex_task i s) = 2"
  by (simp add: ex_task_def)

lemma ex_world_fields [simp]:
  "inMemoryData (ex_world ts) = \<lparr>tasks = ts, teamMembers = []\<rparr>"
  "dataFile (ex_world ts) = None"
  "fsWritable (ex_world ts) = False"
  "clients (ex_world ts) = ex_clients"
  "sent (ex_world ts) = []"
  "fileWrites (ex_world ts) = 0"
  "stringifies (ex_world ts) = ex_stringifies"
  by (simp_all add: ex_world_def)

lemma open_clients_ex_world [simp]:
  "open_clients (ex_world ts) = [\<lparr>cid = 0, readyState = OPEN\<rparr>, \<lparr>cid = 1, readyState = OPEN\<rparr>]"
  by (simp add: open_clients_def ex_clients_def)

section \<open>ADD\_TASK replay\<close>

lemma replay_ADD_TASK:
  "\<forall>(ws, msg) \<in> set ms. has_type msg ''ADD_TASK'' \<Longrightarrow>
   tasks (inMemoryData (replay w (map (\<lambda>(ws, msg). (ws, Parsed msg)) ms))) =
     tasks (inMemoryData w) @ map (\<lambda>(ws, msg). payload_of msg) ms"
proof (induction ms arbitrary: w)
  case Nil
  then show ?case by simp
next
  case (Cons a ms)
  obtain ws msg where a: "a = (ws, msg)" by (cases a)
  from Cons.prems a have ty: "has_type msg ''ADD_TASK''" by simp
  from Cons.prems have rest: "\<forall>(ws, msg) \<in> set ms. has_type msg ''ADD_TASK''" by simp
  show ?case
    using Cons.IH [OF rest, of "on_message w ws (Parsed msg)"] ty
    by (simp add: a dispatch_cases tasks_ADD_TASK)
qed

text \<open>
  C1. Starting from the empty Board, a sequence of ADD\_TASK messages whose payloads
  carry pairwise distinct ids leaves exactly those payloads in \<open>tasks\<close>, in the order
  in which the messages were handled.
\<close>

theorem add_task_replay:
  assumes "inMemoryData w = empty_board"
    and "\<forall>(ws, msg) \<in> set ms. has_type msg ''ADD_TASK''"
    and "keys_distinct ''id'' (map (\<lambda>(ws, msg). payload_of msg) ms)"
  shows "tasks (inMemoryData (replay w (map (\<lambda>(ws, msg). (ws, Parsed msg)) ms))) =
           map (\<lambda>(ws, msg). payload_of msg) ms"
  using replay_ADD_TASK [OF assms(2), of w] assms(1) by (simp add: empty_board_def)

theorem add_task_replay_witness:
  "tasks (inMemoryData (replay (ex_world [])
      [(0, Parsed (envelope ''ADD_TASK'' (ex_task ''t1'' ''todo''))),
       (1, Parsed (envelope ''ADD_TASK'' (ex_task ''t2'' ''done'')))])) =
   [ex_task ''t1'' ''todo'', ex_task ''t2'' ''done'']"
proof -
  let ?ms = "[(0::nat, envelope ''ADD_TASK'' (ex_task ''t1'' ''todo'')),
              (1, envelope ''ADD_TASK'' (ex_task ''t2'' ''done''))]"
  have h1: "inMemoryData (ex_world []) = empty_board"
    by (simp add: ex_world_def empty_board_def)
  have h2: "\<forall>(ws, msg) \<in> set ?ms. has_type msg ''ADD_TASK''"
    by (simp add: has_type_def envelope_def own_prop_def)
  have h3: "keys_distinct ''id'' (map (\<lambda>(ws, msg). payload_of msg) ?ms)"
    by (simp add: payload_of_def envelope_def own_prop_def ex_task_def same_key_def)
  show ?thesis
    using add_task_replay [OF h1 h2 h3]
    by (simp add: payload_of_def envelope_def own_prop_def)
qed

section \<open>Messages that change nothing\<close>

text \<open>
  C3. An UPDATE\_TASK whose \<open>payload.id\<close> matches no task leaves the whole world as it
  was: the resident Board, the snapshot file and the count of file writes, and the list
  of \<^verbatim>\<open>send\<close> calls.
\<close>

theorem update_task_unknown_id:
  assumes "has_type msg ''UPDATE_TASK''"
    and "\<forall>t \<in> set (tasks (inMemoryData w)).
           prop_eq ''id'' ''id'' (payload_of msg) t \<noteq> Inr True"
  shows "on_message w ws (Parsed msg) = w"
proof -
  have "findIndex (prop_eq ''id'' ''id'' (payload_of msg)) (tasks (inMemoryData w))
          \<noteq> Inr (Some i)" for i
    using findIndex_no_match [OF assms(2)] .
  then show ?thesis
    using assms(1)
    by (auto simp add: dispatch_cases case_UPDATE_TASK_def readData_def Let_def
          split: sum.splits option.splits)
qed

theorem update_task_unknown_id_witness:
  "on_message (ex_world [ex_task ''t1'' ''todo'']) 0
     (Parsed (envelope ''UPDATE_TASK'' (ex_task ''t9'' ''done''))) =
   ex_world [ex_task ''t1'' ''todo'']"
proof -
  let ?msg = "envelope ''UPDATE_TASK'' (ex_task ''t9'' ''done'')"
  have h1: "has_type ?msg ''UPDATE_TASK''"
    by (simp add: has_type_def envelope_def own_prop_def)
  have h2: "\<forall>t \<in> set (tasks (inMemoryData (ex_world [ex_task ''t1'' ''todo'']))).
              prop_eq ''id'' ''id'' (payload_of ?msg) t \<noteq> Inr True"
    by (simp add: ex_world_def payload_of_def envelope_def own_prop_def ex_task_def prop_eq_def)
  show ?thesis using update_task_unknown_id [OF h1 h2] .
qed

text \<open>
  C10. A message that parses but whose \<open>type\<close> is none of the seven supported tags
  leaves the whole world as it was, exactly as a message that fails to parse does.
\<close>

theorem unsupported_type_ignored:
  assumes "\<forall>ty \<in> set supported. \<not> has_type msg ty"
  shows "on_message w ws (Parsed msg) = w
         \<and> on_message w ws (Parsed msg) = on_message w ws Malformed"
  using dispatch_unsupported [OF assms] by simp

theorem unsupported_type_ignored_witness:
  "on_message (ex_world []) 0 (Parsed (envelope ''PING'' Null)) = ex_world []"
proof -
  have h: "\<forall>ty \<in> set supported. \<not> has_type (envelope ''PING'' Null) ty"
    by (simp add: supported_def has_type_def envelope_def own_prop_def)
  show ?thesis using unsupported_type_ignored [OF h] by simp
qed

section \<open>Fan-out\<close>

lemma case_USER_ACTIVITY_eq:
  "case_USER_ACTIVITY w ws p =
     (if stringifies w (envelope ''USER_ACTIVITY'' p)
      then w\<lparr>sent := sent w @ map (\<lambda>c. (cid c, envelope ''USER_ACTIVITY'' p))
                      (filter (\<lambda>c. cid c \<noteq> ws \<and> readyState c = OPEN) (clients w))\<rparr>
      else w)"
  by (simp add: case_USER_ACTIVITY_def broadcast_eq recipients_def)

text \<open>
  C7 as stated fails: a USER\_ACTIVITY whose payload is an array nested too deep for
  \<^verbatim>\<open>JSON.stringify\<close> makes \<^verbatim>\<open>broadcast\<close> throw a \<^verbatim>\<open>RangeError\<close> at the first
  recipient; the \<^verbatim>\<open>catch\<close> swallows it and the open socket 1 is sent nothing.
\<close>

theorem user_activity_deep_payload_counterexample:
  "has_type (envelope ''USER_ACTIVITY'' (deep 8192)) ''USER_ACTIVITY''
   \<and> \<lparr>cid = 1, readyState = OPEN\<rparr> \<in> set (clients (ex_world []))
   \<and> \<not> stringifies (ex_world []) (envelope ''USER_ACTIVITY'' (deep 8192))
   \<and> new_sends (ex_world [])
        (on_message (ex_world []) 0 (Parsed (envelope ''USER_ACTIVITY'' (deep 8192)))) = []"
proof -
  have no: "\<not> stringifies (ex_world []) (envelope ''USER_ACTIVITY'' (deep 8192))"
    by (simp add: ex_stringifies_def depth_deep)
  then have "case_USER_ACTIVITY (ex_world []) 0 (deep 8192) = ex_world []"
    by (simp only: case_USER_ACTIVITY_eq if_False)
  with no show ?thesis
    by (simp add: dispatch_cases ex_clients_def)
qed

text \<open>
  C7, amended. When \<^verbatim>\<open>JSON.stringify\<close> can serialise the USER\_ACTIVITY event, a
  USER\_ACTIVITY message from socket \<open>ws\<close> adds one \<^verbatim>\<open>send\<close> of it for every registered
  socket that is open and is not \<open>ws\<close>; when it cannot, nothing is sent. Either way
  nothing is sent to \<open>ws\<close>, and the Board, the snapshot file and the count of file
  writes stay as they were.
\<close>

theorem user_activity_fanout:
  assumes "has_type msg ''USER_ACTIVITY''"
  shows "(stringifies w (envelope ''USER_ACTIVITY'' (payload_of msg)) \<longrightarrow>
            on_message w ws (Parsed msg) =
              w\<lparr>sent := sent w @
                  map (\<lambda>c. (cid c, envelope ''USER_ACTIVITY'' (payload_of msg)))
                    (filter (\<lambda>c. cid c \<noteq> ws \<and> readyState c = OPEN) (clients w))\<rparr>)
         \<and> (\<not> stringifies w (envelope ''USER_ACTIVITY'' (payload_of msg)) \<longrightarrow>
              on_message w ws (Parsed msg) = w)
         \<and> (\<forall>(c, m) \<in> set (new_sends w (on_message w ws (Parsed msg))). c \<noteq> ws)
         \<and> inMemoryData (on_message w ws (Parsed msg)) = inMemoryData w
         \<and> fileWrites (on_message w ws (Parsed msg)) = fileWrites w
         \<and> dataFile (on_message w ws (Parsed msg)) = dataFile w"
  using assms
  by (auto simp add: dispatch_cases case_USER_ACTIVITY_eq new_sends_def)

theorem user_activity_fanout_witness:
  "sent (on_message (ex_world []) 0 (Parsed (envelope ''USER_ACTIVITY'' (Str ''typing'')))) =
     [(1, envelope ''USER_ACTIVITY'' (Str ''typing''))]"
proof -
  let ?msg = "envelope ''USER_ACTIVITY'' (Str ''typing'')"
  have h: "has_type ?msg ''USER_ACTIVITY''" by simp
  have ok: "stringifies (ex_world []) (envelope ''USER_ACTIVITY'' (payload_of ?msg))"
    by (simp add: ex_stringifies_def)
  from user_activity_fanout [OF h, of "ex_world []" 0, THEN conjunct1, THEN mp, OF ok]
  have "on_message (ex_world []) 0 (Parsed ?msg) =
          (ex_world [])\<lparr>sent := sent (ex_world []) @
             map (\<lambda>c. (cid c, envelope ''USER_ACTIVITY'' (payload_of ?msg)))
               (filter (\<lambda>c. cid c \<noteq> 0 \<and> readyState c = OPEN) (clients (ex_world [])))\<rparr>" .
  then show ?thesis
    by (simp add: ex_clients_def)
qed

section \<open>Persistence failure\<close>

lemma case_ADD_TASK_eq:
  "case_ADD_TASK w ws p =
     commit w ws ((inMemoryData w)\<lparr>tasks := tasks (inMemoryData w) @ [p]\<rparr>)
       (envelope ''TASK_ADDED'' p)"
  by (simp add: case_ADD_TASK_def readData_def Let_def)





section \<open>Lookups and filters\<close>

lemma findIndex_None_iff:
  "findIndex f ts = Inr None \<longleftrightarrow> (\<forall>t \<in> set ts. f t = Inr False)"
proof (induction ts)
  case Nil
  then show ?case by simp
next
  case (Cons t ts)
  show ?case
  proof (cases "f t")
    case (Inl e)
    then show ?thesis by simp
  next
    case (Inr b)
    with Cons.IH show ?thesis
      by (cases b; cases "findIndex f ts") (auto split: option.splits)
  qed
qed

lemma findIndex_Some_iff:
  "findIndex f ts = Inr (Some i) \<longleftrightarrow>
     i < length ts \<and> f (ts ! i) = Inr True \<and> (\<forall>j < i. f (ts ! j) = Inr False)"
proof (induction ts arbitrary: i)
  case Nil
  then show ?case by simp
next
  case (Cons t ts)
  show ?case
  proof (cases "f t")
    case (Inl e)
    then show ?thesis by (cases i) auto
  next
    case (Inr b)
    show ?thesis
    proof (cases b)
      case True
      with Inr show ?thesis by (cases i) auto
    next
      case False
      show ?thesis
      proof (cases i)
        case 0
        with Inr False show ?thesis
          by (auto split: sum.splits option.splits)
      next
        case (Suc n)
        have "(\<forall>j < Suc n. f ((t # ts) ! j) = Inr False) \<longleftrightarrow> (\<forall>j < n. f (ts ! j) = Inr False)"
          using Inr False by (auto simp add: less_Suc_eq_0_disj)
        with Inr False Suc Cons.IH [of n] show ?thesis
          by (auto split: sum.splits option.splits)
      qed
    qed
  qed
qed

lemma filter_js_total:
  "\<forall>t \<in> set ts. f t = Inr (g t) \<Longrightarrow> filter_js f ts = Inr (filter g ts)"
  by (induction ts) simp_all

lemma filter_js_Inr:
  "filter_js f ts = Inr ys \<Longrightarrow> ys = filter (\<lambda>t. f t = Inr True) ts"
proof (induction ts arbitrary: ys)
  case Nil
  then show ?case by simp
next
  case (Cons t ts)
  then show ?case
    by (cases "f t"; cases "filter_js f ts") (auto split: if_splits)
qed

lemma get_prop_defined: "\<not> nullish v \<Longrightarrow> \<exists>x. get_prop v k = Inr x"
  by (cases v) simp_all

lemma prop_eq_same_key:
  "\<not> nullish t \<Longrightarrow> \<not> nullish p \<Longrightarrow> prop_eq k k p t = Inr (same_key k t p)"
  using get_prop_defined [of t k] get_prop_defined [of p k]
  by (auto simp add: prop_eq_def same_key_def)

lemma prop_neq_same_key:
  "\<not> nullish t \<Longrightarrow> \<not> nullish p \<Longrightarrow> prop_neq k k p t = Inr (\<not> same_key k t p)"
  by (simp add: prop_neq_def prop_eq_same_key)

section \<open>DELETE\_TASK\<close>

text \<open>
  C4 as stated fails: with one task in the Board and open sockets registered, a
  DELETE\_TASK whose payload is \<^verbatim>\<open>null\<close> makes the filter callback throw on
  \<^verbatim>\<open>msg.payload.id\<close>; the \<^verbatim>\<open>catch\<close> swallows the error and nothing is sent.
\<close>

theorem delete_task_null_payload_counterexample:
  "has_type (envelope ''DELETE_TASK'' Null) ''DELETE_TASK''
   \<and> open_clients (ex_world [ex_task ''t1'' ''todo'']) \<noteq> []
   \<and> stringifies (ex_world [ex_task ''t1'' ''todo'']) (envelope ''TASK_DELETED'' Null)
   \<and> new_sends (ex_world [ex_task ''t1'' ''todo''])
        (on_message (ex_world [ex_task ''t1'' ''todo'']) 0
           (Parsed (envelope ''DELETE_TASK'' Null))) = []"
proof -
  have "case_DELETE_TASK (ex_world [ex_task ''t1'' ''todo'']) 0 Null =
          ex_world [ex_task ''t1'' ''todo'']"
    by (simp add: case_DELETE_TASK_def readData_def ex_task_def prop_neq_def
          prop_eq_def own_prop_def)
  then show ?thesis
    by (simp add: dispatch_cases ex_stringifies_def)
qed

text \<open>
  C4, amended. When no task of the Board is \<^verbatim>\<open>null\<close> or \<^verbatim>\<open>undefined\<close> and, unless
  the Board has no task, neither is the payload, a DELETE\_TASK removes exactly the
  tasks whose \<open>id\<close> is \<^verbatim>\<open>===\<close> to \<open>payload.id\<close>, keeps the others in order and
  leaves \<open>teamMembers\<close> alone. When \<^verbatim>\<open>JSON.stringify\<close> can serialise the TASK\_DELETED
  event, it is sent with the payload to every open socket and to the sender, whether
  or not a task matched; when it cannot, nothing is sent.
\<close>

theorem delete_task_removes_matches:
  assumes "has_type msg ''DELETE_TASK''"
    and "\<forall>t \<in> set (tasks (inMemoryData w)). \<not> nullish t \<and> \<not> nullish (payload_of msg)"
  shows "tasks (inMemoryData (on_message w ws (Parsed msg))) =
           filter (\<lambda>t. \<not> same_key ''id'' t (payload_of msg)) (tasks (inMemoryData w))
       \<and> teamMembers (inMemoryData (on_message w ws (Parsed msg))) =
           teamMembers (inMemoryData w)
       \<and> (stringifies w (envelope ''TASK_DELETED'' (payload_of msg)) \<longrightarrow>
            new_sends w (on_message w ws (Parsed msg)) =
              map (\<lambda>c. (cid c, envelope ''TASK_DELETED'' (payload_of msg))) (open_clients w)
                @ [(ws, envelope ''TASK_DELETED'' (payload_of msg))])
       \<and> (\<not> stringifies w (envelope ''TASK_DELETED'' (payload_of msg)) \<longrightarrow>
            new_sends w (on_message w ws (Parsed msg)) = [])"
proof -
  let ?p = "payload_of msg"
  have "\<forall>t \<in> set (tasks (inMemoryData w)).
          prop_neq ''id'' ''id'' ?p t = Inr (\<not> same_key ''id'' t ?p)"
    using assms(2) by (simp add: prop_neq_same_key)
  from filter_js_total [OF this]
  have "case_DELETE_TASK w ws ?p =
          commit w ws
            ((inMemoryData w)\<lparr>tasks := filter (\<lambda>t. \<not> same_key ''id'' t ?p)
                                       (tasks (inMemoryData w))\<rparr>)
            (envelope ''TASK_DELETED'' ?p)"
    by (simp add: case_DELETE_TASK_def readData_def Let_def)
  with assms(1) show ?thesis
    by (simp add: dispatch_cases new_sends_commit)
qed

theorem delete_task_removes_matches_witness:
  "tasks (inMemoryData (on_message (ex_world [ex_task ''t1'' ''todo'', ex_task ''t2'' ''done''])
      0 (Parsed (envelope ''DELETE_TASK'' (Obj [(''id'', Str ''t1'')]))))) = [ex_task ''t2'' ''done'']
   \<and> new_sends (ex_world [ex_task ''t1'' ''todo'', ex_task ''t2'' ''done''])
       (on_message (ex_world [ex_task ''t1'' ''todo'', ex_task ''t2'' ''done''])
          0 (Parsed (envelope ''DELETE_TASK'' (Obj [(''id'', Str ''t9'')])))) =
       [(0, envelope ''TASK_DELETED'' (Obj [(''id'', Str ''t9'')])),
        (1, envelope ''TASK_DELETED'' (Obj [(''id'', Str ''t9'')])),
        (0, envelope ''TASK_DELETED'' (Obj [(''id'', Str ''t9'')]))]"
proof -
  let ?w = "ex_world [ex_task ''t1'' ''todo'', ex_task ''t2'' ''done'']"
  have ty: "has_type (envelope ''DELETE_TASK'' x) ''DELETE_TASK''" for x
    by simp
  have ok: "\<forall>t \<in> set (tasks (inMemoryData ?w)).
              \<not> nullish t \<and> \<not> nullish (payload_of (envelope ''DELETE_TASK'' (Obj [(''id'', Str i)])))" for i
    by (simp add: ex_task_def)
  have ser: "stringifies ?w (envelope ''TASK_DELETED''
               (payload_of (envelope ''DELETE_TASK'' (Obj [(''id'', Str ''t9'')]))))"
    by (simp add: ex_stringifies_def)
  note hit = delete_task_removes_matches [OF ty ok [of "''t1''"], where ws = 0]
  note miss = delete_task_removes_matches [OF ty ok [of "''t9''"], where ws = 0]
  from hit have "tasks (inMemoryData (on_message ?w 0
      (Parsed (envelope ''DELETE_TASK'' (Obj [(''id'', Str ''t1'')]))))) =
      filter (\<lambda>t. \<not> same_key ''id'' t
                 (payload_of (envelope ''DELETE_TASK'' (Obj [(''id'', Str ''t1'')]))))
        (tasks (inMemoryData ?w))"
    by (rule conjunct1)
  then have a: "tasks (inMemoryData (on_message ?w 0
      (Parsed (envelope ''DELETE_TASK'' (Obj [(''id'', Str ''t1'')]))))) = [ex_task ''t2'' ''done'']"
    by (simp add: same_key_def ex_task_def own_prop_def)
  from miss [THEN conjunct2, THEN conjunct2, THEN conjunct1, THEN mp, OF ser]
  have b: "new_sends ?w (on_message ?w 0
             (Parsed (envelope ''DELETE_TASK'' (Obj [(''id'', Str ''t9'')])))) =
       [(0, envelope ''TASK_DELETED'' (Obj [(''id'', Str ''t9'')])),
        (1, envelope ''TASK_DELETED'' (Obj [(''id'', Str ''t9'')])),
        (0, envelope ''TASK_DELETED'' (Obj [(''id'', Str ''t9'')]))]"
    by simp
  from a b show ?thesis by (rule conjI)
qed

section \<open>Distinct task ids\<close>

lemma keys_distinct_sorted_wrt:
  "keys_distinct k ts = sorted_wrt (\<lambda>t u. \<not> same_key k t u) ts"
  by (induction ts) simp_all

lemma keys_distinct_snoc:
  "keys_distinct k (ts @ [p]) \<longleftrightarrow> keys_distinct k ts \<and> (\<forall>t \<in> set ts. \<not> same_key k t p)"
  by (simp add: keys_distinct_sorted_wrt sorted_wrt_append)

lemma keys_distinct_filter: "keys_distinct k ts \<Longrightarrow> keys_distinct k (filter g ts)"
  by (simp add: keys_distinct_sorted_wrt sorted_wrt_filter)

lemma same_key_cong:
  "get_prop t k = get_prop t' k \<Longrightarrow> get_prop u k = get_prop u' k \<Longrightarrow>
   same_key k t u = same_key k t' u'"
  by (simp add: same_key_def)

lemma keys_distinct_update:
  assumes "keys_distinct k ts" and "i < length ts" and "get_prop t' k = get_prop (ts ! i) k"
  shows "keys_distinct k (ts[i := t'])"
proof -
  have same: "get_prop (ts[i := t'] ! j) k = get_prop (ts ! j) k" if "j < length ts" for j
    using that assms(3) by (cases "j = i") simp_all
  have "\<not> same_key k (ts[i := t'] ! a) (ts[i := t'] ! b)" if "a < b" and "b < length ts" for a b
  proof -
    from that have "a < length ts" by simp
    from same [OF this] same [OF that(2)]
    have "same_key k (ts[i := t'] ! a) (ts[i := t'] ! b) = same_key k (ts ! a) (ts ! b)"
      by (rule same_key_cong)
    moreover have "\<not> same_key k (ts ! a) (ts ! b)"
      using assms(1) that by (simp add: keys_distinct_sorted_wrt sorted_wrt_iff_nth_less)
    ultimately show ?thesis by simp
  qed
  then show ?thesis
    by (simp add: keys_distinct_sorted_wrt sorted_wrt_iff_nth_less)
qed

lemma strict_eq_imp_eq: "strict_eq a b \<Longrightarrow> a = b"
  by (cases a; cases b) simp_all

lemma prop_eq_True_same: "prop_eq k k p t = Inr True \<Longrightarrow> get_prop p k = get_prop t k"
  by (auto simp add: prop_eq_def split: sum.splits dest: strict_eq_imp_eq)

lemma get_prop_set_prop_other: "k' \<noteq> k \<Longrightarrow> get_prop (set_prop t k v) k' = get_prop t k'"
  by (cases t) (simp_all add: own_prop_def update_conv')

lemma push_comment_other:
  "push_comment t c = Inr t' \<Longrightarrow> k \<noteq> ''comments'' \<Longrightarrow> get_prop t' k = get_prop t k"
  by (auto simp add: push_comment_def get_prop_set_prop_other
        split: sum.splits jsval.splits if_splits)

lemma distinct_ADD_TASK:
  "keys_distinct ''id'' (tasks (inMemoryData w)) \<Longrightarrow>
   \<forall>t \<in> set (tasks (inMemoryData w)). \<not> same_key ''id'' t p \<Longrightarrow>
   keys_distinct ''id'' (tasks (inMemoryData (case_ADD_TASK w ws p)))"
  by (simp add: tasks_ADD_TASK keys_distinct_snoc)

lemma distinct_UPDATE_TASK:
  assumes "keys_distinct ''id'' (tasks (inMemoryData w))"
  shows "keys_distinct ''id'' (tasks (inMemoryData (case_UPDATE_TASK w ws p)))"
proof (cases "findIndex (prop_eq ''id'' ''id'' p) (tasks (inMemoryData w))")
  case (Inl e)
  with assms show ?thesis by (simp add: case_UPDATE_TASK_def readData_def Let_def)
next
  case (Inr r)
  show ?thesis
  proof (cases r)
    case None
    with Inr assms show ?thesis by (simp add: case_UPDATE_TASK_def readData_def Let_def)
  next
    case (Some i)
    with Inr have i: "i < length (tasks (inMemoryData w))"
      and m: "prop_eq ''id'' ''id'' p (tasks (inMemoryData w) ! i) = Inr True"
      by (simp_all add: findIndex_Some_iff)
    from keys_distinct_update [OF assms i prop_eq_True_same [OF m]] Inr Some
    show ?thesis by (simp add: case_UPDATE_TASK_def readData_def Let_def)
  qed
qed

lemma distinct_DELETE_TASK:
  assumes "keys_distinct ''id'' (tasks (inMemoryData w))"
  shows "keys_distinct ''id'' (tasks (inMemoryData (case_DELETE_TASK w ws p)))"
proof (cases "filter_js (prop_neq ''id'' ''id'' p) (tasks (inMemoryData w))")
  case (Inl e)
  with assms show ?thesis by (simp add: case_DELETE_TASK_def readData_def Let_def)
next
  case (Inr ys)
  from filter_js_Inr [OF Inr] assms have "keys_distinct ''id'' ys"
    by (simp add: keys_distinct_filter)
  with Inr show ?thesis by (simp add: case_DELETE_TASK_def readData_def Let_def)
qed

lemma distinct_MOVE_TASK:
  assumes "keys_distinct ''id'' (tasks (inMemoryData w))"
  shows "keys_distinct ''id'' (tasks (inMemoryData (case_MOVE_TASK w ws p)))"
proof (cases "findIndex (prop_eq ''id'' ''id'' p) (tasks (inMemoryData w))")
  case (Inl e)
  with assms show ?thesis by (simp add: case_MOVE_TASK_def readData_def Let_def)
next
  case (Inr r)
  show ?thesis
  proof (cases r)
    case None
    with Inr assms show ?thesis by (simp add: case_MOVE_TASK_def readData_def Let_def)
  next
    case (Some i)
    with Inr have i: "i < length (tasks (inMemoryData w))"
      by (simp add: findIndex_Some_iff)
    have "keys_distinct ''id''
            ((tasks (inMemoryData w))[i := set_prop (tasks (inMemoryData w) ! i) ''status'' v])" for v
      using assms i by (rule keys_distinct_update) (simp add: get_prop_set_prop_other)
    with Inr Some assms show ?thesis
      by (simp add: case_MOVE_TASK_def readData_def Let_def split: sum.splits)
  qed
qed

lemma distinct_ADD_COMMENT:
  assumes "keys_distinct ''id'' (tasks (inMemoryData w))"
  shows "keys_distinct ''id'' (tasks (inMemoryData (case_ADD_COMMENT w ws p)))"
proof (cases "findIndex (prop_eq ''id'' ''taskId'' p) (tasks (inMemoryData w))")
  case (Inl e)
  with assms show ?thesis by (simp add: case_ADD_COMMENT_def readData_def Let_def)
next
  case (Inr r)
  show ?thesis
  proof (cases r)
    case None
    with Inr assms show ?thesis by (simp add: case_ADD_COMMENT_def readData_def Let_def)
  next
    case (Some i)
    with Inr have i: "i < length (tasks (inMemoryData w))"
      by (simp add: findIndex_Some_iff)
    have "keys_distinct ''id'' ((tasks (inMemoryData w))[i := t'])"
      if "push_comment (tasks (inMemoryData w) ! i) c = Inr t'" for c t'
      using assms i by (rule keys_distinct_update) (simp add: push_comment_other [OF that])
    with Inr Some assms show ?thesis
      by (simp add: case_ADD_COMMENT_def readData_def Let_def split: sum.splits)
  qed
qed

lemma tasks_UPDATE_TEAM_MEMBER:
  "tasks (inMemoryData (case_UPDATE_TEAM_MEMBER w ws p)) = tasks (inMemoryData w)"
  by (simp add: case_UPDATE_TEAM_MEMBER_def readData_def Let_def split: sum.splits)

lemma tasks_USER_ACTIVITY:
  "tasks (inMemoryData (case_USER_ACTIVITY w ws p)) = tasks (inMemoryData w)"
  by (simp add: case_USER_ACTIVITY_eq)

text \<open>
  C2 as stated fails: ADD\_TASK appends its payload without looking at the ids already
  in the Board, so a second task with the id \<open>t1\<close> ends the uniqueness.
\<close>

theorem add_task_duplicate_id_counterexample:
  "keys_distinct ''id'' (tasks (inMemoryData (ex_world [ex_task ''t1'' ''todo''])))
   \<and> has_type (envelope ''ADD_TASK'' (ex_task ''t1'' ''done'')) ''ADD_TASK''
   \<and> \<not> keys_distinct ''id''
         (tasks (inMemoryData (on_message (ex_world [ex_task ''t1'' ''todo'']) 0
            (Parsed (envelope ''ADD_TASK'' (ex_task ''t1'' ''done''))))))"
proof -
  have ty: "has_type (envelope ''ADD_TASK'' (ex_task ''t1'' ''done'')) ''ADD_TASK''"
    by (simp add: has_type_def envelope_def own_prop_def)
  have p: "payload_of (envelope ''ADD_TASK'' (ex_task ''t1'' ''done'')) = ex_task ''t1'' ''done''"
    by (simp add: payload_of_def envelope_def own_prop_def)
  have before: "keys_distinct ''id'' (tasks (inMemoryData (ex_world [ex_task ''t1'' ''todo''])))"
    by (simp add: ex_world_def)
  have "same_key ''id'' (ex_task ''t1'' ''todo'') (ex_task ''t1'' ''done'')"
    by (simp add: same_key_def ex_task_def own_prop_def)
  then have "\<not> keys_distinct ''id''
         (tasks (inMemoryData (case_ADD_TASK (ex_world [ex_task ''t1'' ''todo'']) 0
            (ex_task ''t1'' ''done''))))"
    by (simp add: tasks_ADD_TASK)
  with ty p before show ?thesis by (simp add: dispatch_cases)
qed

text \<open>
  C2, amended. From a Board whose tasks have pairwise distinct ids, handling any one
  message keeps them pairwise distinct, unless the message is an ADD\_TASK whose payload
  carries an id that is \<^verbatim>\<open>===\<close> to the id of a task already in the Board.
\<close>

theorem task_ids_stay_distinct:
  assumes "keys_distinct ''id'' (tasks (inMemoryData w))"
    and "has_type msg ''ADD_TASK'' \<longrightarrow>
           (\<forall>t \<in> set (tasks (inMemoryData w)). \<not> same_key ''id'' t (payload_of msg))"
  shows "keys_distinct ''id'' (tasks (inMemoryData (on_message w ws (Parsed msg))))"
proof (cases "get_prop msg ''type''")
  case (Inl e)
  with assms(1) show ?thesis by (simp add: dispatch_def)
next
  case (Inr ty)
  with assms(2) have fresh: "ty = Str ''ADD_TASK'' \<Longrightarrow>
      \<forall>t \<in> set (tasks (inMemoryData w)). \<not> same_key ''id'' t (payload_of msg)"
    by (simp add: has_type_def)
  from Inr assms(1) fresh show ?thesis
    by (simp add: dispatch_def distinct_ADD_TASK distinct_UPDATE_TASK distinct_DELETE_TASK
          distinct_MOVE_TASK distinct_ADD_COMMENT tasks_UPDATE_TEAM_MEMBER tasks_USER_ACTIVITY)
qed

theorem task_ids_stay_distinct_witness:
  "keys_distinct ''id''
     (tasks (inMemoryData (on_message (ex_world [ex_task ''t1'' ''todo'']) 0
        (Parsed (envelope ''ADD_TASK'' (ex_task ''t2'' ''done''))))))"
proof -
  let ?msg = "envelope ''ADD_TASK'' (ex_task ''t2'' ''done'')"
  have p: "payload_of ?msg = ex_task ''t2'' ''done''"
    by (simp add: payload_of_def envelope_def own_prop_def)
  have h1: "keys_distinct ''id'' (tasks (inMemoryData (ex_world [ex_task ''t1'' ''todo''])))"
    by (simp add: ex_world_def)
  have h2: "has_type ?msg ''ADD_TASK'' \<longrightarrow>
              (\<forall>t \<in> set (tasks (inMemoryData (ex_world [ex_task ''t1'' ''todo'']))).
                 \<not> same_key ''id'' t (payload_of ?msg))"
    by (simp add: ex_world_def same_key_def ex_task_def own_prop_def)
  show ?thesis using task_ids_stay_distinct [OF h1 h2] .
qed

section \<open>MOVE\_TASK\<close>

lemma get_prop_set_prop_same: "is_ref t \<Longrightarrow> get_prop (set_prop t k v) k = Inr v"
  by (cases t) (simp_all add: own_prop_def update_conv')

lemma set_prop_primitive: "\<not> is_ref t \<Longrightarrow> set_prop t k v = t"
  by (cases t) simp_all

lemma prop_eq_payload_defined:
  "prop_eq k k' p t = Inr b \<Longrightarrow> \<exists>v. get_prop p k'' = Inr v"
  by (cases p) (auto simp add: prop_eq_def split: sum.splits)

text \<open>
  C5 as stated fails: two ADD\_TASK messages, the first with a \<^verbatim>\<open>null\<close> payload, give
  the Board \<^verbatim>\<open>[null, t1]\<close>. It contains a task whose id equals the id of the
  MOVE\_TASK payload, yet the lookup throws on \<^verbatim>\<open>null.id\<close> before it reaches that
  task: the world stays as it was and the status of \<open>t1\<close> is still \<open>todo\<close>.
\<close>

theorem move_task_poisoned_board_counterexample:
  "tasks (inMemoryData (replay (ex_world [])
      [(0, Parsed (envelope ''ADD_TASK'' Null)),
       (0, Parsed (envelope ''ADD_TASK'' (ex_task ''t1'' ''todo'')))])) =
     [Null, ex_task ''t1'' ''todo'']
   \<and> prop_eq ''id'' ''id'' (Obj [(''id'', Str ''t1''), (''status'', Str ''done'')])
        (ex_task ''t1'' ''todo'') = Inr True
   \<and> on_message (ex_world [Null, ex_task ''t1'' ''todo'']) 0
        (Parsed (envelope ''MOVE_TASK'' (Obj [(''id'', Str ''t1''), (''status'', Str ''done'')]))) =
      ex_world [Null, ex_task ''t1'' ''todo'']
   \<and> get_prop (ex_task ''t1'' ''todo'') ''status'' = Inr (Str ''todo'')"
proof -
  have a: "tasks (inMemoryData (replay (ex_world [])
      [(0, Parsed (envelope ''ADD_TASK'' Null)),
       (0, Parsed (envelope ''ADD_TASK'' (ex_task ''t1'' ''todo'')))])) =
     [Null, ex_task ''t1'' ''todo'']"
    by (simp add: dispatch_cases tasks_ADD_TASK)
  have b: "prop_eq ''id'' ''id'' (Obj [(''id'', Str ''t1''), (''status'', Str ''done'')])
        (ex_task ''t1'' ''todo'') = Inr True"
    by (simp add: prop_eq_def ex_task_def own_prop_def)
  have "case_MOVE_TASK (ex_world [Null, ex_task ''t1'' ''todo'']) 0
          (Obj [(''id'', Str ''t1''), (''status'', Str ''done'')]) =
        ex_world [Null, ex_task ''t1'' ''todo'']"
    by (simp add: case_MOVE_TASK_def readData_def ex_world_def prop_eq_def)
  then have c: "on_message (ex_world [Null, ex_task ''t1'' ''todo'']) 0
        (Parsed (envelope ''MOVE_TASK'' (Obj [(''id'', Str ''t1''), (''status'', Str ''done'')]))) =
      ex_world [Null, ex_task ''t1'' ''todo'']"
    by (simp add: dispatch_cases)
  have d: "get_prop (ex_task ''t1'' ''todo'') ''status'' = Inr (Str ''todo'')"
    by (simp add: ex_task_def own_prop_def)
  from a b c d show ?thesis by (simp only: simp_thms)
qed

lemma tasks_MOVE_TASK:
  assumes "findIndex (prop_eq ''id'' ''id'' p) (tasks (inMemoryData w)) = Inr (Some i)"
    and "get_prop p ''status'' = Inr v"
  shows "inMemoryData (case_MOVE_TASK w ws p) =
           (inMemoryData w)\<lparr>tasks := (tasks (inMemoryData w))
              [i := set_prop (tasks (inMemoryData w) ! i) ''status'' v]\<rparr>"
  using assms by (simp add: case_MOVE_TASK_def readData_def Let_def)

text \<open>
  C5, amended. When \<open>tasks[i]\<close> is the first element whose id is \<^verbatim>\<open>===\<close> to
  \<open>payload.id\<close> and the comparison throws on no earlier element, MOVE\_TASK sets the
  \<open>status\<close> of \<open>tasks[i]\<close> to \<open>payload.status\<close> if that element is an object or an
  array and leaves a primitive element as it is; every other property of \<open>tasks[i]\<close>,
  the elements of an array-shaped \<open>tasks[i]\<close>, every other task and \<open>teamMembers\<close> are
  unchanged.
\<close>

theorem move_task_frame:
  assumes "has_type msg ''MOVE_TASK''"
    and "i < length (tasks (inMemoryData w))"
    and "prop_eq ''id'' ''id'' (payload_of msg) (tasks (inMemoryData w) ! i) = Inr True"
    and "\<forall>j < i. prop_eq ''id'' ''id'' (payload_of msg) (tasks (inMemoryData w) ! j) = Inr False"
  shows "length (tasks (inMemoryData (on_message w ws (Parsed msg)))) =
           length (tasks (inMemoryData w))
       \<and> (is_ref (tasks (inMemoryData w) ! i) \<longrightarrow>
            get_prop (tasks (inMemoryData (on_message w ws (Parsed msg))) ! i) ''status'' =
              get_prop (payload_of msg) ''status'')
       \<and> (\<not> is_ref (tasks (inMemoryData w) ! i) \<longrightarrow>
            tasks (inMemoryData (on_message w ws (Parsed msg))) ! i =
              tasks (inMemoryData w) ! i)
       \<and> (\<forall>k. k \<noteq> ''status'' \<longrightarrow>
            get_prop (tasks (inMemoryData (on_message w ws (Parsed msg))) ! i) k =
              get_prop (tasks (inMemoryData w) ! i) k)
       \<and> (\<forall>xs ps. tasks (inMemoryData w) ! i = Arr xs ps \<longrightarrow>
            (\<exists>ps'. tasks (inMemoryData (on_message w ws (Parsed msg))) ! i = Arr xs ps'))
       \<and> (\<forall>j < length (tasks (inMemoryData w)). j \<noteq> i \<longrightarrow>
            tasks (inMemoryData (on_message w ws (Parsed msg))) ! j =
              tasks (inMemoryData w) ! j)
       \<and> teamMembers (inMemoryData (on_message w ws (Parsed msg))) =
           teamMembers (inMemoryData w)"
proof -
  let ?p = "payload_of msg"
  let ?ts = "tasks (inMemoryData w)"
  from assms(2-4) have found: "findIndex (prop_eq ''id'' ''id'' ?p) ?ts = Inr (Some i)"
    by (simp add: findIndex_Some_iff)
  from prop_eq_payload_defined [OF assms(3)]
  obtain v where v: "get_prop ?p ''status'' = Inr v" by blast
  have after: "inMemoryData (dispatch w ws msg) =
                 (inMemoryData w)\<lparr>tasks := ?ts[i := set_prop (?ts ! i) ''status'' v]\<rparr>"
    using assms(1) tasks_MOVE_TASK [OF found v] by (simp add: dispatch_cases)
  show ?thesis
    using assms(2) v
    by (simp add: after get_prop_set_prop_same set_prop_primitive get_prop_set_prop_other)
qed

theorem move_task_frame_witness:
  "tasks (inMemoryData (on_message (ex_world [ex_task ''t1'' ''todo'', ex_task ''t2'' ''todo''])
      0 (Parsed (envelope ''MOVE_TASK'' (Obj [(''id'', Str ''t2''), (''status'', Str ''done'')])))))
     ! 0 = ex_task ''t1'' ''todo''
   \<and> get_prop (tasks (inMemoryData
        (on_message (ex_world [ex_task ''t1'' ''todo'', ex_task ''t2'' ''todo''])
          0 (Parsed (envelope ''MOVE_TASK'' (Obj [(''id'', Str ''t2''), (''status'', Str ''done'')])))))
        ! 1) ''status'' = Inr (Str ''done'')"
proof -
  let ?w = "ex_world [ex_task ''t1'' ''todo'', ex_task ''t2'' ''todo'']"
  let ?p = "Obj [(''id'', Str ''t2''), (''status'', Str ''done'')]"
  let ?msg = "envelope ''MOVE_TASK'' ?p"
  have h1: "has_type ?msg ''MOVE_TASK''" by simp
  have h2: "1 < length (tasks (inMemoryData ?w))" by (simp add: ex_world_def)
  have h3: "prop_eq ''id'' ''id'' (payload_of ?msg) (tasks (inMemoryData ?w) ! 1) = Inr True"
    by (simp add: ex_world_def ex_task_def prop_eq_def own_prop_def)
  have h4: "\<forall>j < 1. prop_eq ''id'' ''id'' (payload_of ?msg) (tasks (inMemoryData ?w) ! j) = Inr False"
    by (simp add: ex_world_def ex_task_def prop_eq_def own_prop_def)
  have r: "is_ref (tasks (inMemoryData ?w) ! 1)" by (simp add: ex_world_def ex_task_def)
  have l: "(0::nat) < length (tasks (inMemoryData ?w))" by (simp add: ex_world_def)
  note t = move_task_frame [OF h1 h2 h3 h4, of 0]
  from t r have "get_prop (tasks (inMemoryData (on_message ?w 0 (Parsed ?msg))) ! 1) ''status'' =
      get_prop (payload_of ?msg) ''status''"
    by blast
  then have a: "get_prop (tasks (inMemoryData (on_message ?w 0 (Parsed ?msg))) ! 1) ''status'' =
      Inr (Str ''done'')"
    by (simp add: own_prop_def)
  from t l have "tasks (inMemoryData (on_message ?w 0 (Parsed ?msg))) ! 0 =
      tasks (inMemoryData ?w) ! 0"
    by (metis zero_neq_one)
  then have b: "tasks (inMemoryData (on_message ?w 0 (Parsed ?msg))) ! 0 = ex_task ''t1'' ''todo''"
    by (simp add: ex_world_def)
  from a b show ?thesis by (simp only: simp_thms)
qed

section \<open>UPDATE\_TEAM\_MEMBER\<close>

lemma teamMembers_UPDATE_TEAM_MEMBER:
  "teamMembers (inMemoryData (case_UPDATE_TEAM_MEMBER w ws p)) =
     upsert_result p (teamMembers (inMemoryData w))"
  by (simp add: case_UPDATE_TEAM_MEMBER_def upsert_result_def readData_def Let_def
        split: sum.splits option.splits)

lemma strict_eq_refl: "\<not> is_ref x \<Longrightarrow> strict_eq x x"
  by (cases x) simp_all

lemma strict_eq_not_ref: "strict_eq a b \<Longrightarrow> \<not> is_ref b"
  by (cases a; cases b) simp_all

lemma prop_eq_self:
  assumes "get_prop p k = Inr x" and "\<not> is_ref x"
  shows "prop_eq k k p p = Inr True"
  using assms by (simp add: prop_eq_def strict_eq_refl)

lemma prop_eq_True_self:
  assumes "prop_eq k k p t = Inr True"
  shows "prop_eq k k p p = Inr True"
proof -
  from assms obtain a b where "get_prop t k = Inr a" "get_prop p k = Inr b" "strict_eq a b"
    by (auto simp add: prop_eq_def split: sum.splits)
  then show ?thesis
    using prop_eq_self [of p k b] strict_eq_not_ref [of a b] by simp
qed

lemma prop_eq_False_same_key: "prop_eq k k p t = Inr False \<Longrightarrow> \<not> same_key k t p"
  by (auto simp add: prop_eq_def same_key_def split: sum.splits)

lemma upsert_result_idem:
  assumes "\<forall>x. get_prop p ''name'' = Inr x \<longrightarrow> \<not> is_ref x"
  shows "upsert_result p (upsert_result p ms) = upsert_result p ms"
proof (cases "findIndex (prop_eq ''name'' ''name'' p) ms")
  case (Inl e)
  then show ?thesis by (simp add: upsert_result_def)
next
  case (Inr r)
  let ?f = "prop_eq ''name'' ''name'' p"
  show ?thesis
  proof (cases r)
    case None
    with Inr have once: "upsert_result p ms = ms @ [p]"
      by (simp add: upsert_result_def)
    from Inr None have miss: "\<forall>t \<in> set ms. ?f t = Inr False"
      by (simp add: findIndex_None_iff)
    show ?thesis
    proof (cases "get_prop p ''name''")
      case (Inl e)
      then have "?f p = Inl e"
        by (cases p) (simp_all add: prop_eq_def)
      then have "findIndex ?f (ms @ [p]) \<noteq> Inr None"
        and "\<And>i. findIndex ?f (ms @ [p]) \<noteq> Inr (Some i)"
        using miss
        by (auto simp add: findIndex_None_iff findIndex_Some_iff nth_append less_Suc_eq)
      then have "upsert_result p (ms @ [p]) = ms @ [p]"
        by (simp add: upsert_result_def split: sum.splits option.splits)
      with once show ?thesis by simp
    next
      case (Inr x)
      with assms have "?f p = Inr True"
        by (simp add: prop_eq_self)
      with miss have "findIndex ?f (ms @ [p]) = Inr (Some (length ms))"
        by (simp add: findIndex_Some_iff nth_append)
      then have "upsert_result p (ms @ [p]) = ms @ [p]"
        by (simp add: upsert_result_def)
      with once show ?thesis by simp
    qed
  next
    case (Some i)
    with Inr have once: "upsert_result p ms = ms[i := p]"
      by (simp add: upsert_result_def)
    from Inr Some have i: "i < length ms" and hit: "?f (ms ! i) = Inr True"
      and before: "\<forall>j < i. ?f (ms ! j) = Inr False"
      by (simp_all add: findIndex_Some_iff)
    from prop_eq_True_self [OF hit] i before
    have "findIndex ?f (ms[i := p]) = Inr (Some i)"
      by (simp add: findIndex_Some_iff)
    then have "upsert_result p (ms[i := p]) = ms[i := p]"
      by (simp add: upsert_result_def)
    with once show ?thesis by simp
  qed
qed

lemma upsert_result_distinct:
  assumes "keys_distinct ''name'' ms"
  shows "keys_distinct ''name'' (upsert_result p ms)"
proof (cases "findIndex (prop_eq ''name'' ''name'' p) ms")
  case (Inl e)
  with assms show ?thesis by (simp add: upsert_result_def)
next
  case (Inr r)
  show ?thesis
  proof (cases r)
    case None
    with Inr have "\<forall>t \<in> set ms. \<not> same_key ''name'' t p"
      by (simp add: findIndex_None_iff prop_eq_False_same_key)
    with Inr None assms show ?thesis
      by (simp add: upsert_result_def keys_distinct_snoc)
  next
    case (Some i)
    with Inr have i: "i < length ms"
      and hit: "prop_eq ''name'' ''name'' p (ms ! i) = Inr True"
      by (simp_all add: findIndex_Some_iff)
    from keys_distinct_update [OF assms i prop_eq_True_same [OF hit]] Inr Some
    show ?thesis by (simp add: upsert_result_def)
  qed
qed

text \<open>
  C6 as stated fails: a payload whose \<open>name\<close> is an object never compares \<^verbatim>\<open>===\<close> to
  the \<open>name\<close> stored by the previous, separately parsed message, so the same message
  handled twice appends the member twice.
\<close>

theorem upsert_object_name_counterexample:
  "has_type (envelope ''UPDATE_TEAM_MEMBER'' (Obj [(''name'', Obj [(''first'', Str ''Ann'')])]))
     ''UPDATE_TEAM_MEMBER''
   \<and> teamMembers (inMemoryData (on_message (ex_world []) 0
        (Parsed (envelope ''UPDATE_TEAM_MEMBER'' (Obj [(''name'', Obj [(''first'', Str ''Ann'')])]))))) =
      [Obj [(''name'', Obj [(''first'', Str ''Ann'')])]]
   \<and> teamMembers (inMemoryData (on_message
        (on_message (ex_world []) 0
          (Parsed (envelope ''UPDATE_TEAM_MEMBER'' (Obj [(''name'', Obj [(''first'', Str ''Ann'')])]))))
        0 (Parsed (envelope ''UPDATE_TEAM_MEMBER'' (Obj [(''name'', Obj [(''first'', Str ''Ann'')])]))))) =
      [Obj [(''name'', Obj [(''first'', Str ''Ann'')])],
       Obj [(''name'', Obj [(''first'', Str ''Ann'')])]]"
proof -
  let ?p = "Obj [(''name'', Obj [(''first'', Str ''Ann'')])]"
  have m0: "teamMembers (inMemoryData (ex_world [])) = []"
    by (simp add: ex_world_def)
  have once: "upsert_result ?p [] = [?p]"
    by (simp add: upsert_result_def)
  have twice: "upsert_result ?p [?p] = [?p, ?p]"
    by (simp add: upsert_result_def prop_eq_def own_prop_def)
  show ?thesis
    by (simp add: dispatch_cases teamMembers_UPDATE_TEAM_MEMBER m0 once twice)
qed

text \<open>
  C6, amended. For a payload whose \<open>name\<close> is not an object or an array, handling the same
  UPDATE\_TEAM\_MEMBER message twice leaves the same \<open>teamMembers\<close> as handling it once.
  The first member whose name is \<^verbatim>\<open>===\<close> to \<open>payload.name\<close> (the comparison throwing
  on no earlier member) is replaced in place; when the comparison is false on every
  member, the payload is appended; and members with pairwise distinct names keep
  pairwise distinct names.
\<close>

theorem upsert_team_member:
  assumes "has_type msg ''UPDATE_TEAM_MEMBER''"
    and "\<forall>x. get_prop (payload_of msg) ''name'' = Inr x \<longrightarrow> \<not> is_ref x"
  shows "teamMembers (inMemoryData
            (on_message (on_message w ws (Parsed msg)) ws' (Parsed msg))) =
           teamMembers (inMemoryData (on_message w ws (Parsed msg)))
       \<and> (\<forall>i < length (teamMembers (inMemoryData w)).
             prop_eq ''name'' ''name'' (payload_of msg) (teamMembers (inMemoryData w) ! i) = Inr True
             \<and> (\<forall>j < i. prop_eq ''name'' ''name'' (payload_of msg)
                            (teamMembers (inMemoryData w) ! j) = Inr False) \<longrightarrow>
             teamMembers (inMemoryData (on_message w ws (Parsed msg))) =
               (teamMembers (inMemoryData w))[i := payload_of msg])
       \<and> ((\<forall>m \<in> set (teamMembers (inMemoryData w)).
               prop_eq ''name'' ''name'' (payload_of msg) m = Inr False) \<longrightarrow>
             teamMembers (inMemoryData (on_message w ws (Parsed msg))) =
               teamMembers (inMemoryData w) @ [payload_of msg])
       \<and> (keys_distinct ''name'' (teamMembers (inMemoryData w)) \<longrightarrow>
             keys_distinct ''name'' (teamMembers (inMemoryData (on_message w ws (Parsed msg)))))"
proof -
  let ?p = "payload_of msg"
  let ?ms = "teamMembers (inMemoryData w)"
  have after: "teamMembers (inMemoryData (dispatch v c msg)) =
                 upsert_result ?p (teamMembers (inMemoryData v))" for v c
    using assms(1) by (simp add: dispatch_cases teamMembers_UPDATE_TEAM_MEMBER)
  have idem: "teamMembers (inMemoryData
            (on_message (on_message w ws (Parsed msg)) ws' (Parsed msg))) =
           teamMembers (inMemoryData (on_message w ws (Parsed msg)))"
    using upsert_result_idem [OF assms(2)] by (simp add: after)
  have replace: "upsert_result ?p ?ms = ?ms[i := ?p]"
    if "i < length ?ms" and "prop_eq ''name'' ''name'' ?p (?ms ! i) = Inr True"
      and "\<forall>j < i. prop_eq ''name'' ''name'' ?p (?ms ! j) = Inr False" for i
  proof -
    from that have "findIndex (prop_eq ''name'' ''name'' ?p) ?ms = Inr (Some i)"
      by (simp add: findIndex_Some_iff)
    then show ?thesis by (simp add: upsert_result_def)
  qed
  have append: "upsert_result ?p ?ms = ?ms @ [?p]"
    if "\<forall>m \<in> set ?ms. prop_eq ''name'' ''name'' ?p m = Inr False"
  proof -
    from that have "findIndex (prop_eq ''name'' ''name'' ?p) ?ms = Inr None"
      by (simp add: findIndex_None_iff)
    then show ?thesis by (simp add: upsert_result_def)
  qed
  have dist: "keys_distinct ''name'' (upsert_result ?p ?ms)" if "keys_distinct ''name'' ?ms"
    using that by (rule upsert_result_distinct)
  from idem replace append dist show ?thesis
    by (simp add: after)
qed

theorem upsert_team_member_witness:
  "teamMembers (inMemoryData (on_message
      (on_message (ex_world []) 0
         (Parsed (envelope ''UPDATE_TEAM_MEMBER'' (Obj [(''name'', Str ''Ann''), (''role'', Str ''dev'')]))))
      1 (Parsed (envelope ''UPDATE_TEAM_MEMBER'' (Obj [(''name'', Str ''Ann''), (''role'', Str ''dev'')]))))) =
   [Obj [(''name'', Str ''Ann''), (''role'', Str ''dev'')]]"
proof -
  let ?p = "Obj [(''name'', Str ''Ann''), (''role'', Str ''dev'')]"
  let ?msg = "envelope ''UPDATE_TEAM_MEMBER'' ?p"
  have h1: "has_type ?msg ''UPDATE_TEAM_MEMBER''" by simp
  have h2: "\<forall>x. get_prop (payload_of ?msg) ''name'' = Inr x \<longrightarrow> \<not> is_ref x"
    by (auto simp add: own_prop_def)
  have m0: "teamMembers (inMemoryData (ex_world [])) = []"
    by (simp add: ex_world_def)
  note t = upsert_team_member [OF h1 h2, of "ex_world []" 0 1]
  from t have idem: "teamMembers (inMemoryData
      (on_message (on_message (ex_world []) 0 (Parsed ?msg)) 1 (Parsed ?msg))) =
      teamMembers (inMemoryData (on_message (ex_world []) 0 (Parsed ?msg)))"
    by (rule conjunct1)
  from t have "(\<forall>m \<in> set (teamMembers (inMemoryData (ex_world []))).
               prop_eq ''name'' ''name'' (payload_of ?msg) m = Inr False) \<longrightarrow>
             teamMembers (inMemoryData (on_message (ex_world []) 0 (Parsed ?msg))) =
               teamMembers (inMemoryData (ex_world [])) @ [payload_of ?msg]"
    by (elim conjE)
  then have once: "teamMembers (inMemoryData (on_message (ex_world []) 0 (Parsed ?msg))) = [?p]"
    by (simp add: m0)
  from idem once show ?thesis by (simp only:)
qed

section \<open>Broadcast with echo\<close>

lemma commit_self: "x = commit w ws d ev \<Longrightarrow> x = commit w ws (inMemoryData x) ev"
  by simp

lemma findIndex_first_hit:
  "first_hit k k' p ts i \<Longrightarrow> findIndex (prop_eq k k' p) ts = Inr (Some i)"
  by (simp add: first_hit_def findIndex_Some_iff)

lemma case_UPDATE_TASK_eq:
  assumes "first_hit ''id'' ''id'' p (tasks (inMemoryData w)) i"
  shows "case_UPDATE_TASK w ws p =
           commit w ws ((inMemoryData w)\<lparr>tasks := (tasks (inMemoryData w))[i := p]\<rparr>)
             (envelope ''TASK_UPDATED'' p)"
  using findIndex_first_hit [OF assms]
  by (simp add: case_UPDATE_TASK_def readData_def Let_def)

lemma case_DELETE_TASK_eq:
  assumes "\<forall>t \<in> set (tasks (inMemoryData w)). \<not> nullish t \<and> \<not> nullish p"
  shows "case_DELETE_TASK w ws p =
           commit w ws
             ((inMemoryData w)\<lparr>tasks := filter (\<lambda>t. \<not> same_key ''id'' t p)
                                        (tasks (inMemoryData w))\<rparr>)
             (envelope ''TASK_DELETED'' p)"
proof -
  have "\<forall>t \<in> set (tasks (inMemoryData w)).
          prop_neq ''id'' ''id'' p t = Inr (\<not> same_key ''id'' t p)"
    using assms by (simp add: prop_neq_same_key)
  from filter_js_total [OF this] show ?thesis
    by (simp add: case_DELETE_TASK_def readData_def Let_def)
qed

lemma case_MOVE_TASK_found:
  assumes "findIndex (prop_eq ''id'' ''id'' p) (tasks (inMemoryData w)) = Inr (Some i)"
    and "get_prop p ''status'' = Inr v"
  shows "case_MOVE_TASK w ws p =
           commit w ws
             ((inMemoryData w)\<lparr>tasks := (tasks (inMemoryData w))
                [i := set_prop (tasks (inMemoryData w) ! i) ''status'' v]\<rparr>)
             (envelope ''TASK_MOVED'' p)"
  unfolding case_MOVE_TASK_def readData_def Let_def assms by simp

lemma case_ADD_COMMENT_found:
  assumes "findIndex (prop_eq ''id'' ''taskId'' p) (tasks (inMemoryData w)) = Inr (Some i)"
    and "get_prop p ''comment'' = Inr c"
    and "push_comment (tasks (inMemoryData w) ! i) c = Inr t'"
  shows "case_ADD_COMMENT w ws p =
           commit w ws ((inMemoryData w)\<lparr>tasks := (tasks (inMemoryData w))[i := t']\<rparr>)
             (envelope ''COMMENT_ADDED'' p)"
  unfolding case_ADD_COMMENT_def readData_def Let_def
  by (simp only: assms sum.case option.case)

lemma case_MOVE_TASK_eq:
  assumes "first_hit ''id'' ''id'' p (tasks (inMemoryData w)) i"
  shows "case_MOVE_TASK w ws p =
           commit w ws (inMemoryData (case_MOVE_TASK w ws p)) (envelope ''TASK_MOVED'' p)"
proof -
  from assms have "prop_eq ''id'' ''id'' p (tasks (inMemoryData w) ! i) = Inr True"
    by (simp add: first_hit_def)
  from prop_eq_payload_defined [OF this, where k'' = "''status''"]
  obtain v where v: "get_prop p ''status'' = Inr v" by (elim exE)
  from case_MOVE_TASK_found [OF findIndex_first_hit [OF assms] v]
  show ?thesis by (rule commit_self)
qed

lemma push_comment_defined:
  assumes "has_comments_array t"
  shows "\<exists>t'. push_comment t c = Inr t'"
proof (cases "get_prop t ''comments''")
  case (Inl e)
  with assms show ?thesis by (simp add: has_comments_array_def)
next
  case (Inr cm)
  with assms obtain xs ps where "cm = Arr xs ps" and "map_of ps ''push'' = None"
    by (cases cm) (simp_all add: has_comments_array_def)
  with Inr show ?thesis by (simp add: push_comment_def)
qed

lemma case_ADD_COMMENT_eq:
  assumes "first_hit ''id'' ''taskId'' p (tasks (inMemoryData w)) i"
    and "has_comments_array (tasks (inMemoryData w) ! i)"
  shows "case_ADD_COMMENT w ws p =
           commit w ws (inMemoryData (case_ADD_COMMENT w ws p)) (envelope ''COMMENT_ADDED'' p)"
proof -
  from assms(1) have "prop_eq ''id'' ''taskId'' p (tasks (inMemoryData w) ! i) = Inr True"
    by (simp add: first_hit_def)
  from prop_eq_payload_defined [OF this, where k'' = "''comment''"]
  obtain c where c: "get_prop p ''comment'' = Inr c" by (elim exE)
  from push_comment_defined [OF assms(2), where c = c]
  obtain t' where t': "push_comment (tasks (inMemoryData w) ! i) c = Inr t'" by (elim exE)
  from case_ADD_COMMENT_found [OF findIndex_first_hit [OF assms(1)] c t']
  show ?thesis by (rule commit_self)
qed

lemma case_UPDATE_TEAM_MEMBER_eq:
  assumes "(\<exists>i < length (teamMembers (inMemoryData w)).
              first_hit ''name'' ''name'' p (teamMembers (inMemoryData w)) i)
           \<or> (\<forall>m \<in> set (teamMembers (inMemoryData w)).
                 prop_eq ''name'' ''name'' p m = Inr False)"
  shows "case_UPDATE_TEAM_MEMBER w ws p =
           commit w ws
             ((inMemoryData w)\<lparr>teamMembers := upsert_result p (teamMembers (inMemoryData w))\<rparr>)
             (envelope ''TEAM_UPDATED'' (Arr (upsert_result p (teamMembers (inMemoryData w))) []))"
proof -
  from assms
  have "\<exists>r. findIndex (prop_eq ''name'' ''name'' p) (teamMembers (inMemoryData w)) = Inr r"
  proof
    assume "\<exists>i < length (teamMembers (inMemoryData w)).
              first_hit ''name'' ''name'' p (teamMembers (inMemoryData w)) i"
    then obtain i where "first_hit ''name'' ''name'' p (teamMembers (inMemoryData w)) i"
      by (elim exE conjE)
    from findIndex_first_hit [OF this] show ?thesis by (rule exI)
  next
    assume "\<forall>m \<in> set (teamMembers (inMemoryData w)).
              prop_eq ''name'' ''name'' p m = Inr False"
    then have "findIndex (prop_eq ''name'' ''name'' p) (teamMembers (inMemoryData w)) = Inr None"
      by (simp add: findIndex_None_iff)
    then show ?thesis by (rule exI)
  qed
  then obtain r
    where "findIndex (prop_eq ''name'' ''name'' p) (teamMembers (inMemoryData w)) = Inr r"
    by (elim exE)
  then show ?thesis
    by (cases r) (simp_all add: case_UPDATE_TEAM_MEMBER_def upsert_result_def readData_def Let_def)
qed

lemma accepted_kind:
  assumes "accepted ty b p"
  shows "ty = ''ADD_TASK'' \<or> ty = ''UPDATE_TASK'' \<or> ty = ''MOVE_TASK''
         \<or> ty = ''DELETE_TASK'' \<or> ty = ''ADD_COMMENT'' \<or> ty = ''UPDATE_TEAM_MEMBER''"
proof (rule ccontr)
  assume "\<not> ?thesis"
  then have "\<not> accepted ty b p" by (simp add: accepted_def)
  with assms show False by simp
qed

lemma accepted_commit_ADD_TASK:
  assumes "has_type msg ''ADD_TASK''"
  shows "dispatch w ws msg =
           commit w ws (inMemoryData (dispatch w ws msg))
             (event_of ''ADD_TASK'' (inMemoryData w) (payload_of msg))"
proof -
  have "dispatch w ws msg =
          commit w ws
            ((inMemoryData w)\<lparr>tasks := tasks (inMemoryData w) @ [payload_of msg]\<rparr>)
            (event_of ''ADD_TASK'' (inMemoryData w) (payload_of msg))"
    using assms by (simp add: dispatch_cases case_ADD_TASK_eq event_of_def event_tag_def)
  then show ?thesis by (rule commit_self)
qed

lemma accepted_commit_UPDATE_TASK:
  assumes "has_type msg ''UPDATE_TASK''"
    and "accepted ''UPDATE_TASK'' (inMemoryData w) (payload_of msg)"
  shows "dispatch w ws msg =
           commit w ws (inMemoryData (dispatch w ws msg))
             (event_of ''UPDATE_TASK'' (inMemoryData w) (payload_of msg))"
proof -
  from assms(2)
  have "\<exists>i < length (tasks (inMemoryData w)).
          first_hit ''id'' ''id'' (payload_of msg) (tasks (inMemoryData w)) i"
    by (simp add: accepted_def)
  then obtain i
    where "first_hit ''id'' ''id'' (payload_of msg) (tasks (inMemoryData w)) i"
    by (elim exE conjE)
  from case_UPDATE_TASK_eq [OF this, of ws] assms(1)
  have "dispatch w ws msg =
          commit w ws
            ((inMemoryData w)\<lparr>tasks := (tasks (inMemoryData w))[i := payload_of msg]\<rparr>)
            (event_of ''UPDATE_TASK'' (inMemoryData w) (payload_of msg))"
    by (simp add: dispatch_cases event_of_def event_tag_def)
  then show ?thesis by (rule commit_self)
qed

lemma accepted_commit_MOVE_TASK:
  assumes "has_type msg ''MOVE_TASK''"
    and "accepted ''MOVE_TASK'' (inMemoryData w) (payload_of msg)"
  shows "dispatch w ws msg =
           commit w ws (inMemoryData (dispatch w ws msg))
             (event_of ''MOVE_TASK'' (inMemoryData w) (payload_of msg))"
proof -
  from assms(2)
  have "\<exists>i < length (tasks (inMemoryData w)).
          first_hit ''id'' ''id'' (payload_of msg) (tasks (inMemoryData w)) i"
    by (simp add: accepted_def)
  then obtain i
    where "first_hit ''id'' ''id'' (payload_of msg) (tasks (inMemoryData w)) i"
    by (elim exE conjE)
  from case_MOVE_TASK_eq [OF this, of ws] assms(1)
  show ?thesis
    by (simp add: dispatch_cases event_of_def event_tag_def)
qed

lemma accepted_commit_DELETE_TASK:
  assumes "has_type msg ''DELETE_TASK''"
    and "accepted ''DELETE_TASK'' (inMemoryData w) (payload_of msg)"
  shows "dispatch w ws msg =
           commit w ws (inMemoryData (dispatch w ws msg))
             (event_of ''DELETE_TASK'' (inMemoryData w) (payload_of msg))"
proof -
  from assms(2)
  have "\<forall>t \<in> set (tasks (inMemoryData w)). \<not> nullish t \<and> \<not> nullish (payload_of msg)"
    by (simp add: accepted_def)
  from case_DELETE_TASK_eq [OF this, of ws] assms(1)
  have "dispatch w ws msg =
          commit w ws
            ((inMemoryData w)\<lparr>tasks := filter (\<lambda>t. \<not> same_key ''id'' t (payload_of msg))
                                       (tasks (inMemoryData w))\<rparr>)
            (event_of ''DELETE_TASK'' (inMemoryData w) (payload_of msg))"
    by (simp add: dispatch_cases event_of_def event_tag_def)
  then show ?thesis by (rule commit_self)
qed

lemma accepted_commit_ADD_COMMENT:
  assumes "has_type msg ''ADD_COMMENT''"
    and "accepted ''ADD_COMMENT'' (inMemoryData w) (payload_of msg)"
  shows "dispatch w ws msg =
           commit w ws (inMemoryData (dispatch w ws msg))
             (event_of ''ADD_COMMENT'' (inMemoryData w) (payload_of msg))"
proof -
  from assms(2)
  have "\<exists>i < length (tasks (inMemoryData w)).
          first_hit ''id'' ''taskId'' (payload_of msg) (tasks (inMemoryData w)) i
          \<and> has_comments_array (tasks (inMemoryData w) ! i)"
    by (simp add: accepted_def)
  then obtain i
    where "first_hit ''id'' ''taskId'' (payload_of msg) (tasks (inMemoryData w)) i"
      and "has_comments_array (tasks (inMemoryData w) ! i)"
    by (elim exE conjE)
  from case_ADD_COMMENT_eq [OF this, of ws] assms(1)
  show ?thesis
    by (simp add: dispatch_cases event_of_def event_tag_def)
qed

lemma accepted_commit_UPDATE_TEAM_MEMBER:
  assumes "has_type msg ''UPDATE_TEAM_MEMBER''"
    and "accepted ''UPDATE_TEAM_MEMBER'' (inMemoryData w) (payload_of msg)"
  shows "dispatch w ws msg =
           commit w ws (inMemoryData (dispatch w ws msg))
             (event_of ''UPDATE_TEAM_MEMBER'' (inMemoryData w) (payload_of msg))"
proof -
  from assms(2)
  have "(\<exists>i < length (teamMembers (inMemoryData w)).
            first_hit ''name'' ''name'' (payload_of msg) (teamMembers (inMemoryData w)) i)
         \<or> (\<forall>m \<in> set (teamMembers (inMemoryData w)).
               prop_eq ''name'' ''name'' (payload_of msg) m = Inr False)"
    by (simp add: accepted_def)
  from case_UPDATE_TEAM_MEMBER_eq [OF this, of ws] assms(1)
  have "dispatch w ws msg =
          commit w ws
            ((inMemoryData w)\<lparr>teamMembers :=
               upsert_result (payload_of msg) (teamMembers (inMemoryData w))\<rparr>)
            (event_of ''UPDATE_TEAM_MEMBER'' (inMemoryData w) (payload_of msg))"
    by (simp add: dispatch_cases event_of_def)
  then show ?thesis by (rule commit_self)
qed

lemma accepted_commit:
  assumes "has_type msg ty" and "accepted ty (inMemoryData w) (payload_of msg)"
  shows "dispatch w ws msg =
           commit w ws (inMemoryData (dispatch w ws msg))
             (event_of ty (inMemoryData w) (payload_of msg))"
  using accepted_kind [OF assms(2)]
proof (elim disjE)
  assume t: "ty = ''ADD_TASK''"
  from assms(1) show ?thesis unfolding t by (rule accepted_commit_ADD_TASK)
next
  assume t: "ty = ''UPDATE_TASK''"
  from assms show ?thesis unfolding t by (rule accepted_commit_UPDATE_TASK)
next
  assume t: "ty = ''MOVE_TASK''"
  from assms show ?thesis unfolding t by (rule accepted_commit_MOVE_TASK)
next
  assume t: "ty = ''DELETE_TASK''"
  from assms show ?thesis unfolding t by (rule accepted_commit_DELETE_TASK)
next
  assume t: "ty = ''ADD_COMMENT''"
  from assms show ?thesis unfolding t by (rule accepted_commit_ADD_COMMENT)
next
  assume t: "ty = ''UPDATE_TEAM_MEMBER''"
  from assms show ?thesis unfolding t by (rule accepted_commit_UPDATE_TEAM_MEMBER)
qed

lemma received_append [simp]: "received c (xs @ ys) = received c xs @ received c ys"
  by (simp add: received_def)

lemma received_broadcast_absent:
  "c \<notin> cid ` set cs \<Longrightarrow> received c (map (\<lambda>d. (cid d, ev)) cs) = []"
  by (induction cs) (auto simp add: received_def)

lemma received_broadcast_once:
  "distinct (map cid cs) \<Longrightarrow> d \<in> set cs \<Longrightarrow> received (cid d) (map (\<lambda>d. (cid d, ev)) cs) = [ev]"
proof (induction cs)
  case Nil
  then show ?case by simp
next
  case (Cons a cs)
  show ?case
  proof (cases "a = d")
    case True
    with Cons.prems have "cid d \<notin> cid ` set cs" by auto
    from received_broadcast_absent [OF this] True show ?thesis
      by (simp add: received_def)
  next
    case False
    with Cons.prems have "d \<in> set cs" and "distinct (map cid cs)" and "cid a \<noteq> cid d"
      by auto
    with Cons.IH show ?thesis by (simp add: received_def)
  qed
qed

lemma distinct_open_clients: "distinct (map cid (clients w)) \<Longrightarrow> distinct (map cid (open_clients w))"
  by (simp add: open_clients_def distinct_map_filter)

text \<open>
  C8 as stated fails: the Board holds a task \<open>t1\<close> that has no \<open>comments\<close> array, so
  an ADD\_COMMENT for \<open>t1\<close> meets its precondition (the task exists), yet
  \<^verbatim>\<open>comments.push\<close> throws a \<^verbatim>\<open>TypeError\<close> into the \<^verbatim>\<open>catch\<close>: the world stays as it
  was and the open sender is sent nothing, although the event could be serialised.
\<close>

theorem add_comment_no_array_counterexample:
  "has_type (envelope ''ADD_COMMENT'' (Obj [(''taskId'', Str ''t1''), (''comment'', Str ''hi'')]))
     ''ADD_COMMENT''
   \<and> first_hit ''id'' ''taskId'' (Obj [(''taskId'', Str ''t1''), (''comment'', Str ''hi'')])
        [Obj [(''id'', Str ''t1''), (''status'', Str ''todo'')]] 0
   \<and> \<lparr>cid = 0, readyState = OPEN\<rparr>
        \<in> set (clients (ex_world [Obj [(''id'', Str ''t1''), (''status'', Str ''todo'')]]))
   \<and> stringifies (ex_world [Obj [(''id'', Str ''t1''), (''status'', Str ''todo'')]])
        (envelope ''COMMENT_ADDED'' (Obj [(''taskId'', Str ''t1''), (''comment'', Str ''hi'')]))
   \<and> on_message (ex_world [Obj [(''id'', Str ''t1''), (''status'', Str ''todo'')]]) 0
        (Parsed (envelope ''ADD_COMMENT''
           (Obj [(''taskId'', Str ''t1''), (''comment'', Str ''hi'')]))) =
      ex_world [Obj [(''id'', Str ''t1''), (''status'', Str ''todo'')]]"
proof -
  let ?p = "Obj [(''taskId'', Str ''t1''), (''comment'', Str ''hi'')]"
  let ?t = "Obj [(''id'', Str ''t1''), (''status'', Str ''todo'')]"
  have hit: "first_hit ''id'' ''taskId'' ?p [?t] 0"
    by (simp add: first_hit_def prop_eq_def own_prop_def)
  have ser: "stringifies (ex_world [?t]) (envelope ''COMMENT_ADDED'' ?p)"
    by (simp add: ex_stringifies_def)
  have "findIndex (prop_eq ''id'' ''taskId'' ?p) (tasks (inMemoryData (ex_world [?t]))) =
          Inr (Some 0)"
    using findIndex_first_hit [OF hit] by simp
  moreover have "push_comment ?t (Str ''hi'') = Inl TypeError"
    by (simp add: push_comment_def own_prop_def)
  ultimately have "case_ADD_COMMENT (ex_world [?t]) 0 ?p = ex_world [?t]"
    by (simp add: case_ADD_COMMENT_def readData_def Let_def own_prop_def)
  with hit ser show ?thesis
    by (simp add: dispatch_cases ex_clients_def)
qed

text \<open>
  C8, amended. When a message of one of the six mutating kinds is accepted (ADD\_TASK
  always; UPDATE\_TASK and MOVE\_TASK when the lookup finds the task; DELETE\_TASK when
  neither a task nor the payload is \<^verbatim>\<open>null\<close> or \<^verbatim>\<open>undefined\<close>; ADD\_COMMENT when the
  lookup finds a task that has a \<open>comments\<close> array; UPDATE\_TEAM\_MEMBER when the lookup
  does not throw) and \<^verbatim>\<open>JSON.stringify\<close> can serialise its event, that event (the
  payload under the matching tag, or the members after the upsert under
  TEAM\_UPDATED) is sent to every open registered socket and then once more to the
  sender: an open, registered sender gets it twice, every other open socket once.
\<close>

theorem mutation_echo_inclusive:
  assumes "has_type msg ty"
    and "accepted ty (inMemoryData w) (payload_of msg)"
    and "stringifies w (event_of ty (inMemoryData w) (payload_of msg))"
    and "distinct (map cid (clients w))"
    and "\<lparr>cid = ws, readyState = OPEN\<rparr> \<in> set (clients w)"
  shows "new_sends w (on_message w ws (Parsed msg)) =
           map (\<lambda>c. (cid c, event_of ty (inMemoryData w) (payload_of msg))) (open_clients w)
             @ [(ws, event_of ty (inMemoryData w) (payload_of msg))]
       \<and> received ws (new_sends w (on_message w ws (Parsed msg))) =
           [event_of ty (inMemoryData w) (payload_of msg),
            event_of ty (inMemoryData w) (payload_of msg)]
       \<and> (\<forall>c \<in> set (open_clients w). cid c \<noteq> ws \<longrightarrow>
             received (cid c) (new_sends w (on_message w ws (Parsed msg))) =
               [event_of ty (inMemoryData w) (payload_of msg)])"
proof -
  define ev where "ev = event_of ty (inMemoryData w) (payload_of msg)"
  define w' where "w' = on_message w ws (Parsed msg)"
  have "w' = commit w ws (inMemoryData w') ev"
    using accepted_commit [OF assms(1,2), of ws] by (simp add: w'_def ev_def)
  then have "new_sends w w' =
      (if stringifies w ev then map (\<lambda>c. (cid c, ev)) (open_clients w) @ [(ws, ev)] else [])"
    using new_sends_commit [of w ws "inMemoryData w'" ev] by simp
  with assms(3) have out: "new_sends w w' = map (\<lambda>c. (cid c, ev)) (open_clients w) @ [(ws, ev)]"
    by (simp add: ev_def)
  let ?s = "\<lparr>cid = ws, readyState = OPEN\<rparr>"
  have d: "distinct (map cid (open_clients w))"
    using assms(4) by (rule distinct_open_clients)
  have s: "?s \<in> set (open_clients w)"
    using assms(5) by (simp add: open_clients_def)
  have "received (cid ?s) (map (\<lambda>c. (cid c, ev)) (open_clients w)) = [ev]"
    using received_broadcast_once [OF d s] .
  then have twice: "received ws (new_sends w w') = [ev, ev]"
    by (simp add: out received_def)
  have once: "received (cid c) (new_sends w w') = [ev]"
    if "c \<in> set (open_clients w)" and "cid c \<noteq> ws" for c
    using received_broadcast_once [OF d that(1), of ev] that(2)
    by (simp add: out) (simp add: received_def)
  from out twice once show ?thesis
    unfolding ev_def w'_def by simp
qed

theorem mutation_echo_inclusive_witness:
  "received 0 (new_sends (ex_world []) (on_message (ex_world []) 0
      (Parsed (envelope ''ADD_TASK'' (ex_task ''t1'' ''todo''))))) =
     [envelope ''TASK_ADDED'' (ex_task ''t1'' ''todo''),
      envelope ''TASK_ADDED'' (ex_task ''t1'' ''todo'')]
   \<and> received 1 (new_sends (ex_world []) (on_message (ex_world []) 0
      (Parsed (envelope ''ADD_TASK'' (ex_task ''t1'' ''todo''))))) =
     [envelope ''TASK_ADDED'' (ex_task ''t1'' ''todo'')]"
proof -
  let ?msg = "envelope ''ADD_TASK'' (ex_task ''t1'' ''todo'')"
  let ?w = "ex_world []"
  have ev: "event_of ''ADD_TASK'' (inMemoryData ?w) (payload_of ?msg) =
              envelope ''TASK_ADDED'' (ex_task ''t1'' ''todo'')"
    by (simp add: event_of_def event_tag_def)
  have h1: "has_type ?msg ''ADD_TASK''" by simp
  have h2: "accepted ''ADD_TASK'' (inMemoryData ?w) (payload_of ?msg)"
    by (simp add: accepted_def)
  have h3: "stringifies ?w (event_of ''ADD_TASK'' (inMemoryData ?w) (payload_of ?msg))"
    unfolding ev by (simp add: ex_stringifies_def)
  have h4: "distinct (map cid (clients ?w))"
    by (simp add: ex_clients_def)
  have h5: "\<lparr>cid = 0, readyState = OPEN\<rparr> \<in> set (clients ?w)"
    by (simp add: ex_clients_def)
  note t = mutation_echo_inclusive [OF h1 h2 h3 h4 h5, unfolded ev]
  from t have twice: "received 0 (new_sends ?w (on_message ?w 0 (Parsed ?msg))) =
      [envelope ''TASK_ADDED'' (ex_task ''t1'' ''todo''),
       envelope ''TASK_ADDED'' (ex_task ''t1'' ''todo'')]"
    by (elim conjE)
  from t have "\<forall>c \<in> set (open_clients ?w). cid c \<noteq> 0 \<longrightarrow>
      received (cid c) (new_sends ?w (on_message ?w 0 (Parsed ?msg))) =
        [envelope ''TASK_ADDED'' (ex_task ''t1'' ''todo'')]"
    by (elim conjE)
  then have once: "received 1 (new_sends ?w (on_message ?w 0 (Parsed ?msg))) =
      [envelope ''TASK_ADDED'' (ex_task ''t1'' ''todo'')]"
    by simp
  from twice once show ?thesis by (rule conjI)
qed

end
